theory Spec2Isabelle
  imports Complex_Main
begin

section \<open>Python values used by the billing code\<close>

text \<open>
  The exceptions that the modelled functions can raise. The source raises
  \<open>ValueError\<close> where the specification speaks of \<open>InvalidOrder\<close>.
\<close>

datatype py_error = ValueError | OverflowError | AttributeError | IndexError

subsection \<open>Strings\<close>

text \<open>
  A Python \<open>str\<close> is modelled as a \<open>string\<close> whose characters stand for the code
  points 0 to 255. The whitespace characters of \<open>str.strip()\<close> in that range are
  U+0009 to U+000D, U+001C to U+0020, U+0085 and U+00A0.
\<close>

definition is_space :: "char \<Rightarrow> bool" where
  "is_space c =
     (let n = (of_char c :: nat)
      in (9 \<le> n \<and> n \<le> 13) \<or> (28 \<le> n \<and> n \<le> 32) \<or> n = 133 \<or> n = 160)"

definition lstrip :: "string \<Rightarrow> string" where
  "lstrip s = dropWhile is_space s"

definition rstrip :: "string \<Rightarrow> string" where
  "rstrip s = rev (dropWhile is_space (rev s))"

definition strip :: "string \<Rightarrow> string" where
  "strip s = rstrip (lstrip s)"

text \<open>\<open>s.split(sep)\<close> for a separator of one character.\<close>

fun split_char :: "char \<Rightarrow> string \<Rightarrow> string list" where
  "split_char sep [] = [[]]"
| "split_char sep (c # cs) =
     (case split_char sep cs of
        [] \<Rightarrow> [[c]]
      | p # ps \<Rightarrow> if c = sep then [] # p # ps else (c # p) # ps)"

text \<open>\<open>sep.join(parts)\<close>.\<close>

fun join :: "string \<Rightarrow> string list \<Rightarrow> string" where
  "join sep [] = []"
| "join sep [p] = p"
| "join sep (p # q # ps) = p @ sep @ join sep (q # ps)"

definition startswith :: "string \<Rightarrow> string \<Rightarrow> bool" where
  "startswith s p = (take (length p) s = p)"

text \<open>
  \<open>s.rfind(sep)\<close>: the highest index at which \<open>sep\<close> occurs in \<open>s\<close>, \<open>None\<close> when
  it does not occur. \<open>sep in s\<close> is \<open>rfind sep s \<noteq> None\<close>, and \<open>s.rsplit(sep, 1)\<close>
  cuts \<open>s\<close> at that index.
\<close>

fun rfind :: "string \<Rightarrow> string \<Rightarrow> nat option" where
  "rfind sep [] = (if sep = [] then Some 0 else None)"
| "rfind sep (c # cs) =
     (case rfind sep cs of
        Some i \<Rightarrow> Some (Suc i)
      | None \<Rightarrow> if startswith (c # cs) sep then Some 0 else None)"

definition rsplit1 :: "string \<Rightarrow> string \<Rightarrow> string list" where
  "rsplit1 sep s =
     (case rfind sep s of
        None \<Rightarrow> [s]
      | Some i \<Rightarrow> [take i s, drop (i + length sep) s])"

subsection \<open>Integers and their text\<close>

definition is_digit :: "char \<Rightarrow> bool" where
  "is_digit c = (let n = (of_char c :: nat) in 48 \<le> n \<and> n \<le> 57)"

definition digit_val :: "char \<Rightarrow> int" where
  "digit_val c = int (of_char c) - 48"

text \<open>
  The digit part of a numeric literal: decimal digits, where a single underscore may
  stand between two digits.
\<close>

fun digits_ok :: "string \<Rightarrow> bool" where
  "digits_ok [] = False"
| "digits_ok [c] = is_digit c"
| "digits_ok (c # d # cs) =
     (is_digit c \<and> (if d = CHR ''_'' then digits_ok cs else digits_ok (d # cs)))"

definition digits_value :: "string \<Rightarrow> int" where
  "digits_value s = foldl (\<lambda>a c. 10 * a + digit_val c) 0 (filter is_digit s)"

text \<open>
  The interpreter's limit on the number of digits of a conversion between \<open>int\<close> and
  \<open>str\<close>, at its default (\<open>sys.int_info.default_max_str_digits\<close>).
\<close>

definition MAX_STR_DIGITS :: int where
  "MAX_STR_DIGITS = 4300"

text \<open>
  \<open>int(s)\<close> for a string: surrounding whitespace is ignored, one sign is allowed, and
  anything else than a digit part raises \<open>ValueError\<close>; so does a digit part of more
  than \<open>MAX_STR_DIGITS\<close> digits.
\<close>

definition py_int :: "string \<Rightarrow> py_error + int" where
  "py_int s =
     (let t = strip s;
          neg = (t \<noteq> [] \<and> hd t = CHR ''-'');
          body = (if t \<noteq> [] \<and> (hd t = CHR ''-'' \<or> hd t = CHR ''+'') then tl t else t)
      in if digits_ok body \<and> int (length (filter is_digit body)) \<le> MAX_STR_DIGITS
         then Inr (if neg then - digits_value body else digits_value body)
         else Inl ValueError)"

text \<open>The decimal digits of a natural number, and the decimal text of an integer.\<close>

fun nat_digits :: "nat \<Rightarrow> string" where
  "nat_digits n =
     (if n < 10 then [char_of (48 + n)]
      else nat_digits (n div 10) @ [char_of (48 + n mod 10)])"

declare nat_digits.simps [simp del]

definition int_text :: "int \<Rightarrow> string" where
  "int_text i = (if i < 0 then CHR ''-'' # nat_digits (nat (- i)) else nat_digits (nat i))"

text \<open>
  \<open>str(i)\<close>, which an f-string calls for an integer: the decimal text, or
  \<open>ValueError\<close> for an integer of more than \<open>MAX_STR_DIGITS\<close> digits.
\<close>

definition py_str_int :: "int \<Rightarrow> py_error + string" where
  "py_str_int i =
     (if MAX_STR_DIGITS < int (length (nat_digits (nat \<bar>i\<bar>)))
      then Inl ValueError
      else Inr (int_text i))"

subsection \<open>Counter\<close>

text \<open>
  A \<open>collections.Counter\<close> is a dictionary that keeps the order in which its keys
  were first stored: an association list with distinct keys. Reading a missing key
  gives 0; storing to an existing key keeps its place, a new key goes to the end.
\<close>

type_synonym counter = "(string \<times> int) list"

definition counter_get :: "counter \<Rightarrow> string \<Rightarrow> int" where
  "counter_get c k = (case map_of c k of None \<Rightarrow> 0 | Some v \<Rightarrow> v)"

fun counter_set :: "counter \<Rightarrow> string \<Rightarrow> int \<Rightarrow> counter" where
  "counter_set [] k v = [(k, v)]"
| "counter_set ((k', v') # c) k v =
     (if k' = k then (k, v) # c else (k', v') # counter_set c k v)"

text \<open>\<open>counter[name] += qty\<close>.\<close>

definition counter_add :: "counter \<Rightarrow> string \<Rightarrow> int \<Rightarrow> counter" where
  "counter_add c k q = counter_set c k (counter_get c k + q)"

text \<open>
  \<open>Counter.update(other)\<close> with a mapping: for each entry of \<open>other\<close>, in its order,
  \<open>self[elem] = count + self.get(elem, 0)\<close>.
\<close>

definition counter_update :: "counter \<Rightarrow> counter \<Rightarrow> counter" where
  "counter_update c other = foldl (\<lambda>a (k, v). counter_set a k (v + counter_get a k)) c other"

text \<open>
  \<open>max(items, key=itemgetter(1))\<close>, which \<open>most_common(1)\<close> calls: the running best is
  replaced only by an entry whose count is strictly greater.
\<close>

fun max_by_count :: "string \<times> int \<Rightarrow> counter \<Rightarrow> string \<times> int" where
  "max_by_count best [] = best"
| "max_by_count best (kv # rest) =
     max_by_count (if snd kv > snd best then kv else best) rest"

definition most_common1 :: "counter \<Rightarrow> (string \<times> int) list" where
  "most_common1 c = (case c of [] \<Rightarrow> [] | kv # rest \<Rightarrow> [max_by_count kv rest])"

subsection \<open>Floats\<close>

text \<open>
  A Python \<open>float\<close> is an IEEE 754 binary64 value: a rational, an infinity or
  not-a-number. Every operation computes the exact result and rounds it to the nearest
  binary64 value, ties to the even significand (\<open>rnd\<close>). The sign of a zero is not
  tracked.
\<close>

datatype pyfloat = Fin rat | PInf | NInf | NaN

function bit_length :: "int \<Rightarrow> int" where
  "bit_length n = (if n \<le> 0 then 0 else 1 + bit_length (n div 2))"
  by pat_completeness auto
termination
  by (relation "measure nat") auto

declare bit_length.simps [simp del]

definition pow2 :: "int \<Rightarrow> rat" where
  "pow2 k = (if 0 \<le> k then 2 ^ nat k else 1 / 2 ^ nat (- k))"

text \<open>For \<open>r > 0\<close>, the exponent \<open>e\<close> with \<open>2^e \<le> r < 2^(e+1)\<close>.\<close>

definition floor_log2 :: "rat \<Rightarrow> int" where
  "floor_log2 r =
     (let (p, q) = quotient_of r;
          k = bit_length p - bit_length q
      in if pow2 k \<le> r then k else k - 1)"

definition round_half_even :: "rat \<Rightarrow> int" where
  "round_half_even r =
     (let f = \<lfloor>r\<rfloor>; d = r - of_int f
      in if d < 1 / 2 then f else if 1 / 2 < d then f + 1 else if even f then f else f + 1)"

text \<open>
  Rounding to binary64: 53 significant bits, the last place never below \<open>2^-1074\<close>
  (subnormals), and a result of magnitude \<open>2^1024\<close> or more is an infinity.
\<close>

definition rnd :: "rat \<Rightarrow> pyfloat" where
  "rnd r =
     (if r = 0 then Fin 0
      else let e = max (floor_log2 \<bar>r\<bar> - 52) (- 1074);
               m = round_half_even (r / pow2 e)
           in if 971 < e \<or> (e = 971 \<and> 2 ^ 53 \<le> \<bar>m\<bar>)
              then (if 0 < r then PInf else NInf)
              else Fin (of_int m * pow2 e))"

fun fadd :: "pyfloat \<Rightarrow> pyfloat \<Rightarrow> pyfloat" where
  "fadd (Fin a) (Fin b) = rnd (a + b)"
| "fadd NaN _ = NaN"
| "fadd _ NaN = NaN"
| "fadd PInf NInf = NaN"
| "fadd NInf PInf = NaN"
| "fadd PInf _ = PInf"
| "fadd _ PInf = PInf"
| "fadd NInf _ = NInf"
| "fadd _ NInf = NInf"

fun fmul :: "pyfloat \<Rightarrow> pyfloat \<Rightarrow> pyfloat" where
  "fmul (Fin a) (Fin b) = rnd (a * b)"
| "fmul NaN _ = NaN"
| "fmul _ NaN = NaN"
| "fmul (Fin a) PInf = (if a = 0 then NaN else if 0 < a then PInf else NInf)"
| "fmul (Fin a) NInf = (if a = 0 then NaN else if 0 < a then NInf else PInf)"
| "fmul PInf (Fin b) = (if b = 0 then NaN else if 0 < b then PInf else NInf)"
| "fmul NInf (Fin b) = (if b = 0 then NaN else if 0 < b then NInf else PInf)"
| "fmul PInf PInf = PInf"
| "fmul NInf NInf = PInf"
| "fmul PInf NInf = NInf"
| "fmul NInf PInf = NInf"

text \<open>
  \<open>round(x, 2)\<close>: the exact value of \<open>x\<close> is rounded to two decimal places, ties to
  even, and the decimal result is converted back to the nearest float. Infinities and
  not-a-number round to themselves.
\<close>

fun round2 :: "pyfloat \<Rightarrow> pyfloat" where
  "round2 (Fin r) = rnd (of_int (round_half_even (r * 100)) / 100)"
| "round2 x = x"

text \<open>
  The conversion of an \<open>int\<close> operand of a float operation; an integer beyond the
  float range raises \<open>OverflowError\<close>.
\<close>

definition float_of_int :: "int \<Rightarrow> py_error + pyfloat" where
  "float_of_int i = (case rnd (of_int i) of Fin r \<Rightarrow> Inr (Fin r) | _ \<Rightarrow> Inl OverflowError)"

text \<open>
  \<open>float(s)\<close> for a string: surrounding whitespace is ignored; after an optional sign
  come \<open>inf\<close>, \<open>infinity\<close> or \<open>nan\<close> in any case, or a decimal literal with an optional
  fraction and an optional exponent. Anything else raises \<open>ValueError\<close>.
\<close>

definition lower :: "char \<Rightarrow> char" where
  "lower c = (let n = (of_char c :: nat) in if 65 \<le> n \<and> n \<le> 90 then char_of (n + 32) else c)"

definition cut_at :: "(char \<Rightarrow> bool) \<Rightarrow> string \<Rightarrow> string \<times> string option" where
  "cut_at P s =
     (takeWhile (\<lambda>c. \<not> P c) s,
      case dropWhile (\<lambda>c. \<not> P c) s of [] \<Rightarrow> None | _ # r \<Rightarrow> Some r)"

definition pow10 :: "int \<Rightarrow> rat" where
  "pow10 k = (if 0 \<le> k then 10 ^ nat k else 1 / 10 ^ nat (- k))"

definition parse_exponent :: "string option \<Rightarrow> int option" where
  "parse_exponent ex =
     (case ex of
        None \<Rightarrow> Some 0
      | Some t \<Rightarrow>
          (let neg = (t \<noteq> [] \<and> hd t = CHR ''-'');
               body = (if t \<noteq> [] \<and> (hd t = CHR ''-'' \<or> hd t = CHR ''+'') then tl t else t)
           in if digits_ok body
              then Some (if neg then - digits_value body else digits_value body)
              else None))"

definition parse_decimal :: "string \<Rightarrow> rat option" where
  "parse_decimal s =
     (let (mant, ex) = cut_at (\<lambda>c. c = CHR ''e'' \<or> c = CHR ''E'') s;
          (ip, fp) = cut_at (\<lambda>c. c = CHR ''.'') mant;
          fd = (case fp of None \<Rightarrow> [] | Some f \<Rightarrow> f)
      in if (ip \<noteq> [] \<or> fd \<noteq> []) \<and> (ip = [] \<or> digits_ok ip) \<and> (fd = [] \<or> digits_ok fd)
         then (case parse_exponent ex of
                 None \<Rightarrow> None
               | Some e \<Rightarrow>
                   Some ((of_int (digits_value ip)
                          + of_int (digits_value fd) / 10 ^ length (filter is_digit fd))
                         * pow10 e))
         else None)"

definition py_float :: "string \<Rightarrow> py_error + pyfloat" where
  "py_float s =
     (let t = strip s;
          neg = (t \<noteq> [] \<and> hd t = CHR ''-'');
          body = (if t \<noteq> [] \<and> (hd t = CHR ''-'' \<or> hd t = CHR ''+'') then tl t else t);
          low = map lower body
      in if low = ''inf'' \<or> low = ''infinity'' then Inr (if neg then NInf else PInf)
         else if low = ''nan'' then Inr NaN
         else (case parse_decimal body of
                 None \<Rightarrow> Inl ValueError
               | Some r \<Rightarrow> Inr (rnd (if neg then - r else r))))"

text \<open>The format \<open>.2f\<close> of an f-string.\<close>

fun fmt2 :: "pyfloat \<Rightarrow> string" where
  "fmt2 (Fin r) =
     (let c = round_half_even (\<bar>r\<bar> * 100)
      in (if r < 0 then ''-'' else []) @ nat_digits (nat (c div 100)) @ ''.''
         @ nat_digits (nat (c mod 100 div 10)) @ nat_digits (nat (c mod 10)))"
| "fmt2 PInf = ''inf''"
| "fmt2 NInf = ''-inf''"
| "fmt2 NaN = ''nan''"

section \<open>admin.py: decoding the ordered items\<close>

text \<open>
  The loop of \<open>_parse_ordered_items\<close> over the parts. \<open>except ValueError\<close> catches
  that exception only; any other would leave the function.
\<close>

fun parse_parts :: "counter \<Rightarrow> string list \<Rightarrow> py_error + counter" where
  "parse_parts counter [] = Inr counter"
| "parse_parts counter (part # parts) =
     (let part = strip part
      in if part = [] then parse_parts counter parts
         else if rfind '' x'' part \<noteq> None then
           (case rsplit1 '' x'' part of
              [name, qty_str] \<Rightarrow>
                (let name = strip name
                 in case py_int (strip qty_str) of
                      Inr qty \<Rightarrow>
                        parse_parts (if name \<noteq> [] then counter_add counter name qty else counter) parts
                    | Inl e \<Rightarrow>
                        if e = ValueError
                        then parse_parts (if name \<noteq> [] then counter_add counter name 1 else counter) parts
                        else Inl e)
            | _ \<Rightarrow> Inl ValueError)
         else parse_parts (if part \<noteq> [] then counter_add counter part 1 else counter) parts)"

definition parse_ordered_items :: "string \<Rightarrow> py_error + counter" where
  "parse_ordered_items ordered_items_str =
     (if ordered_items_str = [] then Inr []
      else parse_parts [] (split_char CHR '';'' ordered_items_str))"

section \<open>billing_core.py and pos_logic.py: totals and persistence\<close>

text \<open>The literal \<open>0.05\<close> of \<open>menus.py\<close> and \<open>pos_logic.py\<close>.\<close>

definition GST_RATE :: pyfloat where
  "GST_RATE = rnd (5 / 100)"

record OrderItem =
  name :: string
  quantity :: int
  unit_price :: pyfloat

text \<open>\<open>unit_price * quantity\<close>: the integer is converted to a float first.\<close>

definition line_total :: "OrderItem \<Rightarrow> py_error + pyfloat" where
  "line_total item =
     (case float_of_int (quantity item) of
        Inl e \<Rightarrow> Inl e
      | Inr q \<Rightarrow> Inr (fmul (unit_price item) q))"

definition validate_quantity :: "int \<Rightarrow> py_error + int" where
  "validate_quantity q = (if q \<le> 0 then Inl ValueError else Inr q)"

text \<open>
  \<open>sum(item.line_total for item in order_items)\<close>: the line totals are added from
  the left, starting at zero. (From version 3.12 the interpreter also carries a
  compensation term for the rounding errors of the additions; a sum of at most one
  float is the same under both.)
\<close>

fun sum_line_totals :: "pyfloat \<Rightarrow> OrderItem list \<Rightarrow> py_error + pyfloat" where
  "sum_line_totals acc [] = Inr acc"
| "sum_line_totals acc (item # items) =
     (case line_total item of
        Inl e \<Rightarrow> Inl e
      | Inr t \<Rightarrow> sum_line_totals (fadd acc t) items)"

text \<open>\<open>calculate_totals\<close> of \<open>billing_core.py\<close>.\<close>

definition billing_core_calculate_totals ::
  "OrderItem list \<Rightarrow> py_error + (pyfloat \<times> pyfloat \<times> pyfloat)" where
  "billing_core_calculate_totals order_items =
     (case sum_line_totals (Fin 0) order_items of
        Inl e \<Rightarrow> Inl e
      | Inr subtotal \<Rightarrow>
          (let gst_amount = round2 (fmul subtotal GST_RATE);
               final_total = round2 (fadd subtotal gst_amount)
           in Inr (round2 subtotal, gst_amount, final_total)))"

text \<open>\<open>calculate_totals\<close> of \<open>pos_logic.py\<close> (and of \<open>coffeebot.py\<close>).\<close>

definition pos_logic_calculate_totals ::
  "OrderItem list \<Rightarrow> py_error + (pyfloat \<times> pyfloat \<times> pyfloat)" where
  "pos_logic_calculate_totals order_items =
     (case sum_line_totals (Fin 0) order_items of
        Inl e \<Rightarrow> Inl e
      | Inr s \<Rightarrow>
          (let subtotal = round2 s;
               gst_amount = round2 (fmul subtotal GST_RATE);
               final_total = round2 (fadd subtotal gst_amount)
           in Inr (subtotal, gst_amount, final_total)))"

text \<open>
  The loop of \<open>format_order_items\<close>: the f-string of a part raises what \<open>str\<close> of
  its quantity raises.
\<close>

fun format_parts :: "OrderItem list \<Rightarrow> py_error + string list" where
  "format_parts [] = Inr []"
| "format_parts (item # items) =
     (case py_str_int (quantity item) of
        Inl e \<Rightarrow> Inl e
      | Inr q \<Rightarrow>
          (case format_parts items of
             Inl e \<Rightarrow> Inl e
           | Inr parts \<Rightarrow> Inr ((name item @ '' x'' @ q) # parts)))"

definition format_order_items :: "OrderItem list \<Rightarrow> py_error + string" where
  "format_order_items order_items =
     (case format_parts order_items of
        Inl e \<Rightarrow> Inl e
      | Inr parts \<Rightarrow> Inr (join ''; '' parts))"

text \<open>
  The sales file: \<open>None\<close> when the path does not exist, otherwise the list of its
  records, each the list of its fields, as the \<open>csv\<close> module writes and reads them.
  A file of size zero has no record.
\<close>

type_synonym csv_file = "string list list"

definition HEADER :: "string list" where
  "HEADER = [''CustomerName'', ''OrderedItems'', ''Subtotal'', ''GST'', ''FinalTotal'',
             ''PaymentMethod'', ''DateTime'']"

definition ensure_sales_file_has_header :: "csv_file option \<Rightarrow> csv_file option" where
  "ensure_sales_file_has_header f =
     (case f of
        None \<Rightarrow> Some [HEADER]
      | Some recs \<Rightarrow> if recs \<noteq> [] then Some recs else Some [HEADER])"

definition append_record :: "string list \<Rightarrow> csv_file option \<Rightarrow> csv_file option" where
  "append_record r f = (case f of None \<Rightarrow> Some [r] | Some recs \<Rightarrow> Some (recs @ [r]))"

text \<open>
  \<open>save_transaction\<close>, the same text in both modules, over the module's own
  \<open>calculate_totals\<close>. \<open>now\<close> is the text of the clock at the call; the result is the
  returned value or the exception, and the sales file after the call.
\<close>

definition save_transaction ::
  "(OrderItem list \<Rightarrow> py_error + (pyfloat \<times> pyfloat \<times> pyfloat)) \<Rightarrow>
   string \<Rightarrow> OrderItem list \<Rightarrow> string \<Rightarrow> string \<Rightarrow> csv_file option \<Rightarrow>
   (py_error + (pyfloat \<times> pyfloat \<times> pyfloat)) \<times> csv_file option" where
  "save_transaction calculate_totals customer_name order_items payment_method now f =
     (if strip customer_name = [] then (Inl ValueError, f)
      else if order_items = [] then (Inl ValueError, f)
      else (case calculate_totals order_items of
              Inl e \<Rightarrow> (Inl e, f)
            | Inr (subtotal, gst_amount, final_total) \<Rightarrow>
                (case format_order_items order_items of
                   Inl e \<Rightarrow> (Inl e, f)
                 | Inr ordered_items_str \<Rightarrow>
                     (let timestamp = now;
                          f1 = ensure_sales_file_has_header f;
                          f2 = append_record
                                 [strip customer_name, ordered_items_str, fmt2 subtotal,
                                  fmt2 gst_amount, fmt2 final_total, strip payment_method,
                                  timestamp]
                                 f1
                      in (Inr (subtotal, gst_amount, final_total), f2)))))"

definition billing_core_save_transaction ::
  "string \<Rightarrow> OrderItem list \<Rightarrow> string \<Rightarrow> string \<Rightarrow> csv_file option \<Rightarrow>
   (py_error + (pyfloat \<times> pyfloat \<times> pyfloat)) \<times> csv_file option" where
  "billing_core_save_transaction = save_transaction billing_core_calculate_totals"

definition pos_logic_save_transaction ::
  "string \<Rightarrow> OrderItem list \<Rightarrow> string \<Rightarrow> string \<Rightarrow> csv_file option \<Rightarrow>
   (py_error + (pyfloat \<times> pyfloat \<times> pyfloat)) \<times> csv_file option" where
  "pos_logic_save_transaction = save_transaction pos_logic_calculate_totals"

section \<open>admin.py: the daily report\<close>

text \<open>
  A row of \<open>csv.DictReader\<close>: the field names of the first record are paired with
  the fields of a record; a field name beyond the end of a short record is stored with
  the value \<open>None\<close>. (The surplus fields of a long record go under the key \<open>None\<close>,
  which no lookup of the code reads.)
\<close>

datatype cell = PyNone | PyStr string

type_synonym row = "string \<rightharpoonup> cell"

definition dict_row :: "string list \<Rightarrow> string list \<Rightarrow> row" where
  "dict_row fieldnames r =
     (let d = foldl (\<lambda>d (k, v). d(k \<mapsto> PyStr v)) Map.empty (zip fieldnames r)
      in foldl (\<lambda>d k. d(k \<mapsto> PyNone)) d (drop (length r) fieldnames))"

text \<open>
  The loop \<open>for row in reader\<close> of \<open>_load_todays_transactions\<close>. The reader skips
  records without fields; \<open>timestamp.startswith\<close> on \<open>None\<close> raises
  \<open>AttributeError\<close>.
\<close>

fun load_rows :: "string \<Rightarrow> string list \<Rightarrow> csv_file \<Rightarrow> py_error + row list" where
  "load_rows today_str fieldnames [] = Inr []"
| "load_rows today_str fieldnames (r # rs) =
     (if r = [] then load_rows today_str fieldnames rs
      else (let row = dict_row fieldnames r
            in case (case row ''DateTime'' of None \<Rightarrow> PyStr [] | Some v \<Rightarrow> v) of
                 PyNone \<Rightarrow> Inl AttributeError
               | PyStr timestamp \<Rightarrow>
                   (case load_rows today_str fieldnames rs of
                      Inl e \<Rightarrow> Inl e
                    | Inr rows \<Rightarrow>
                        Inr (if startswith timestamp today_str then row # rows else rows))))"

text \<open>\<open>today_str\<close> is \<open>date.today().strftime("%Y-%m-%d")\<close> at the call.\<close>

definition load_todays_transactions :: "string \<Rightarrow> csv_file option \<Rightarrow> py_error + row list" where
  "load_todays_transactions today_str f =
     (case f of
        None \<Rightarrow> Inr []
      | Some [] \<Rightarrow> Inr []
      | Some (fieldnames # recs) \<Rightarrow> load_rows today_str fieldnames recs)"

text \<open>\<open>float(row.get(key, "0") or 0)\<close>.\<close>

definition number_field :: "row \<Rightarrow> string \<Rightarrow> py_error + pyfloat" where
  "number_field row key =
     (case row key of
        None \<Rightarrow> py_float ''0''
      | Some PyNone \<Rightarrow> Inr (Fin 0)
      | Some (PyStr s) \<Rightarrow> if s = [] then Inr (Fin 0) else py_float s)"

text \<open>\<open>try: total += float(...)\<close> with \<open>except ValueError: pass\<close>.\<close>

definition add_field :: "pyfloat \<Rightarrow> row \<Rightarrow> string \<Rightarrow> py_error + pyfloat" where
  "add_field acc row key =
     (case number_field row key of
        Inr v \<Rightarrow> Inr (fadd acc v)
      | Inl e \<Rightarrow> if e = ValueError then Inr acc else Inl e)"

text \<open>
  \<open>_parse_ordered_items(row.get("OrderedItems", ""))\<close>; the value \<open>None\<close> is false
  like the empty string, and gives the empty counter.
\<close>

definition row_items :: "row \<Rightarrow> py_error + counter" where
  "row_items row =
     (case row ''OrderedItems'' of
        None \<Rightarrow> parse_ordered_items []
      | Some PyNone \<Rightarrow> Inr []
      | Some (PyStr s) \<Rightarrow> parse_ordered_items s)"

fun summary_loop ::
  "pyfloat \<times> pyfloat \<times> counter \<Rightarrow> row list \<Rightarrow> py_error + (pyfloat \<times> pyfloat \<times> counter)" where
  "summary_loop acc [] = Inr acc"
| "summary_loop (total_sales, total_gst, item_counter) (row # rows) =
     (case add_field total_sales row ''FinalTotal'' of
        Inl e \<Rightarrow> Inl e
      | Inr total_sales' \<Rightarrow>
          (case add_field total_gst row ''GST'' of
             Inl e \<Rightarrow> Inl e
           | Inr total_gst' \<Rightarrow>
               (case row_items row of
                  Inl e \<Rightarrow> Inl e
                | Inr c \<Rightarrow>
                    summary_loop (total_sales', total_gst', counter_update item_counter c) rows)))"

text \<open>\<open>item_counter.most_common(1)[0][0]\<close> under \<open>if item_counter\<close>.\<close>

definition most_sold :: "counter \<Rightarrow> py_error + string" where
  "most_sold item_counter =
     (if item_counter \<noteq> []
      then (case most_common1 item_counter of [] \<Rightarrow> Inl IndexError | kv # _ \<Rightarrow> Inr (fst kv))
      else Inr ''N/A'')"

definition compute_daily_summary ::
  "row list \<Rightarrow> py_error + (pyfloat \<times> pyfloat \<times> nat \<times> string)" where
  "compute_daily_summary rows =
     (if rows = [] then Inr (Fin 0, Fin 0, 0, ''N/A'')
      else (case summary_loop (Fin 0, Fin 0, []) rows of
              Inl e \<Rightarrow> Inl e
            | Inr (total_sales, total_gst, item_counter) \<Rightarrow>
                (case most_sold item_counter of
                   Inl e \<Rightarrow> Inl e
                 | Inr most_sold_item \<Rightarrow>
                     Inr (round2 total_sales, round2 total_gst, length rows, most_sold_item))))"

text \<open>The values that \<open>show_daily_report\<close> prints.\<close>

definition show_daily_report ::
  "string \<Rightarrow> csv_file option \<Rightarrow> py_error + (pyfloat \<times> pyfloat \<times> nat \<times> string)" where
  "show_daily_report today_str f =
     (case load_todays_transactions today_str f of
        Inl e \<Rightarrow> Inl e
      | Inr rows \<Rightarrow> compute_daily_summary rows)"

section \<open>The specification's reading of the item-list codec\<close>

text \<open>
  The decoding as the specification words it: a trimmed, non-empty segment is cut at
  the last \<open>" x"\<close> into a name and a quantity text; a quantity text that is not an
  integer counts as 1; a segment without \<open>" x"\<close> is a name with quantity 1.
\<close>

definition decode_segment :: "string \<Rightarrow> (string \<times> int) option" where
  "decode_segment seg =
     (let part = strip seg
      in if part = [] then None
         else (case rfind '' x'' part of
                 None \<Rightarrow> Some (part, 1)
               | Some i \<Rightarrow>
                   Some (strip (take i part),
                         case py_int (drop (i + 2) part) of Inr q \<Rightarrow> q | Inl _ \<Rightarrow> 1)))"

definition decode_events :: "string \<Rightarrow> (string \<times> int) list" where
  "decode_events s = List.map_filter decode_segment (split_char CHR '';'' s)"

text \<open>The tally of a list of (name, quantity) pairs, taken in their order.\<close>

definition tally :: "counter \<Rightarrow> (string \<times> int) list \<Rightarrow> counter" where
  "tally c evs = foldl (\<lambda>a (n, q). counter_add a n q) c evs"

text \<open>
  The encoding as the specification words it: one \<open>"<name> x<quantity>"\<close> per item,
  in the order of the items, joined with \<open>"; "\<close>.
\<close>

definition format_text :: "OrderItem list \<Rightarrow> string" where
  "format_text items =
     join ''; '' (map (\<lambda>item. name item @ '' x'' @ int_text (quantity item)) items)"

text \<open>The sum of the quantities that a list of order items holds for a name.\<close>

definition quantity_sum :: "OrderItem list \<Rightarrow> string \<Rightarrow> int" where
  "quantity_sum items n = sum_list (map quantity (filter (\<lambda>item. name item = n) items))"

text \<open>
  The names of a list in the order of their first occurrence, which is the order in
  which a tally of the list stores its keys.
\<close>

fun seen_order :: "string list \<Rightarrow> string list" where
  "seen_order [] = []"
| "seen_order (x # xs) = x # filter (\<lambda>y. y \<noteq> x) (seen_order xs)"

text \<open>The (name, quantity) pairs that the decoding of a row's ordered items tallies.\<close>

definition row_events :: "row \<Rightarrow> (string \<times> int) list" where
  "row_events row =
     (case row ''OrderedItems'' of
        None \<Rightarrow> []
      | Some PyNone \<Rightarrow> []
      | Some (PyStr s) \<Rightarrow> decode_events s)"

text \<open>
  Whether the loop of \<open>_load_todays_transactions\<close> keeps a row whose \<open>DateTime\<close>
  is not \<open>None\<close>: \<open>row.get("DateTime", "").startswith(today_str)\<close>.
\<close>

definition date_matches :: "string \<Rightarrow> row \<Rightarrow> bool" where
  "date_matches today_str row =
     (case row ''DateTime'' of
        None \<Rightarrow> startswith [] today_str
      | Some PyNone \<Rightarrow> False
      | Some (PyStr timestamp) \<Rightarrow> startswith timestamp today_str)"

text \<open>
  The (name, quantity) pairs of all rows in the order of the scan, and the summed
  quantity of a name over such pairs.
\<close>

definition scan_events :: "row list \<Rightarrow> (string \<times> int) list" where
  "scan_events rows = concat (map row_events rows)"

definition item_total :: "(string \<times> int) list \<Rightarrow> string \<Rightarrow> int" where
  "item_total evs k = sum_list (map snd (filter (\<lambda>e. fst e = k) evs))"

text \<open>
  The names that the codec carries unchanged: not empty, without whitespace at either
  end and without a semicolon.
\<close>

definition codec_name :: "string \<Rightarrow> bool" where
  "codec_name n =
     (n \<noteq> [] \<and> \<not> is_space (hd n) \<and> \<not> is_space (last n) \<and> CHR '';'' \<notin> set n)"

section \<open>The digit limit of integer conversions\<close>

lemma bit_length_nonneg: "0 \<le> bit_length n"
proof (induction n rule: bit_length.induct)
  case (1 n)
  then show ?case
    by (cases "n \<le> 0") (simp_all add: bit_length.simps[of n])
qed

lemma bit_length_bound: "0 \<le> n \<Longrightarrow> n < 2 ^ nat (bit_length n)"
proof (induction n rule: bit_length.induct)
  case (1 n)
  show ?case
  proof (cases "n \<le> 0")
    case True
    with "1.prems" show ?thesis
      by (simp add: bit_length.simps[of n])
  next
    case False
    then have ih: "n div 2 < 2 ^ nat (bit_length (n div 2))"
      using "1.IH" by simp
    have "nat (1 + bit_length (n div 2)) = Suc (nat (bit_length (n div 2)))"
      using bit_length_nonneg[of "n div 2"] by simp
    moreover have "n < 2 * (n div 2 + 1)"
      by simp
    ultimately show ?thesis
      using False ih by (simp add: bit_length.simps[of n])
  qed
qed

lemma bit_length_one: "bit_length 1 = 1"
  by (simp add: bit_length.simps[of 1] bit_length.simps[of 0])

lemma floor_log2_int: "bit_length n - 2 \<le> floor_log2 (of_int n)"
  by (simp add: floor_log2_def Let_def bit_length_one)

lemma rnd_Fin_exponent: "rnd r = Fin x \<Longrightarrow> r \<noteq> 0 \<Longrightarrow> floor_log2 \<bar>r\<bar> \<le> 1023"
  by (auto simp: rnd_def Let_def split: if_splits)

lemma float_of_int_Fin: "float_of_int i = Inr x \<Longrightarrow> \<exists>r. rnd (of_int i) = Fin r"
  by (cases "rnd (of_int i)") (auto simp: float_of_int_def)

lemma rnd_int_exponent:
  "rnd (of_int i) = Fin r \<Longrightarrow> i \<noteq> 0 \<Longrightarrow> floor_log2 (of_int \<bar>i\<bar>) \<le> 1023"
  using rnd_Fin_exponent[of "of_int i" r] by simp

lemma bit_length_of_exponent:
  "floor_log2 (of_int \<bar>i\<bar>) \<le> 1023 \<Longrightarrow> bit_length \<bar>i\<bar> \<le> 1025"
  using floor_log2_int[of "\<bar>i\<bar>"] by linarith

lemma bit_length_zero: "bit_length \<bar>0\<bar> \<le> 1025"
  by (simp add: bit_length.simps[of 0])

text \<open>An integer that converts to a float has at most 1025 bits.\<close>

lemma float_of_int_bit_length:
  assumes "float_of_int i = Inr x"
  shows "bit_length \<bar>i\<bar> \<le> 1025"
proof (cases "i = 0")
  case True
  then show ?thesis using bit_length_zero by simp
next
  case False
  from float_of_int_Fin[OF assms] obtain r where r: "rnd (of_int i) = Fin r"
    by blast
  from bit_length_of_exponent[OF rnd_int_exponent[OF r False]] show ?thesis .
qed

lemma nat_digits_length: "n < 10 ^ k \<Longrightarrow> 1 \<le> k \<Longrightarrow> length (nat_digits n) \<le> k"
proof (induction n arbitrary: k rule: nat_digits.induct)
  case (1 n)
  show ?case
  proof (cases "n < 10")
    case True
    with "1.prems" show ?thesis
      by (simp add: nat_digits.simps[of n])
  next
    case False
    from "1.prems" obtain j where k: "k = Suc j"
      by (cases k) auto
    from False "1.prems" k have "1 \<le> j"
      by (cases j) auto
    moreover from "1.prems" k have "n div 10 < 10 ^ j"
      by (simp add: div_less_iff_less_mult mult.commute)
    ultimately have "length (nat_digits (n div 10)) \<le> j"
      using "1.IH" False by simp
    with False k show ?thesis
      by (simp add: nat_digits.simps[of n])
  qed
qed

lemma nat_digits_length_beyond: "10 ^ k \<le> n \<Longrightarrow> k < length (nat_digits n)"
proof (induction n arbitrary: k rule: nat_digits.induct)
  case (1 n)
  show ?case
  proof (cases k)
    case 0
    then show ?thesis
      by (simp add: nat_digits.simps[of n])
  next
    case (Suc j)
    with "1.prems" have ge: "10 * 10 ^ j \<le> n"
      by simp
    have "(1::nat) \<le> 10 ^ j"
      by simp
    with ge have n10: "\<not> n < 10"
      by linarith
    from ge have "10 ^ j \<le> n div 10"
      by (simp add: less_eq_div_iff_mult_less_eq mult.commute)
    with n10 have "j < length (nat_digits (n div 10))"
      using "1.IH" by simp
    with n10 Suc show ?thesis
      by (simp add: nat_digits.simps[of n])
  qed
qed

lemma abs_digits_length:
  assumes "\<bar>i\<bar> < 10 ^ nat MAX_STR_DIGITS"
  shows "int (length (nat_digits (nat \<bar>i\<bar>))) \<le> MAX_STR_DIGITS"
proof -
  have m: "1 \<le> nat MAX_STR_DIGITS" "0 \<le> MAX_STR_DIGITS"
    by (simp_all add: MAX_STR_DIGITS_def)
  have "int (nat \<bar>i\<bar>) < int (10 ^ nat MAX_STR_DIGITS)"
    using assms by simp
  then have "nat \<bar>i\<bar> < 10 ^ nat MAX_STR_DIGITS"
    by (simp only: of_nat_less_iff)
  then have "length (nat_digits (nat \<bar>i\<bar>)) \<le> nat MAX_STR_DIGITS"
    using m(1) by (rule nat_digits_length)
  with m(2) show ?thesis by linarith
qed

lemma float_of_int_in_limit:
  assumes "float_of_int i = Inr x"
  shows "\<bar>i\<bar> < 10 ^ nat MAX_STR_DIGITS"
proof -
  let ?b = "nat (bit_length \<bar>i\<bar>)"
  have "?b \<le> nat MAX_STR_DIGITS"
    using float_of_int_bit_length[OF assms] by (simp add: MAX_STR_DIGITS_def)
  then have "(10::int) ^ ?b \<le> 10 ^ nat MAX_STR_DIGITS"
    by (intro power_increasing) simp_all
  moreover have "(2::int) ^ ?b \<le> 10 ^ ?b"
    by (intro power_mono) simp_all
  moreover have "\<bar>i\<bar> < 2 ^ ?b"
    by (rule bit_length_bound) simp
  ultimately show ?thesis by linarith
qed

lemma small_in_limit: "\<bar>i\<bar> < 10 \<Longrightarrow> \<bar>i :: int\<bar> < 10 ^ nat MAX_STR_DIGITS"
proof -
  assume a: "\<bar>i\<bar> < 10"
  have "(10::int) ^ 1 \<le> 10 ^ nat MAX_STR_DIGITS"
    by (intro power_increasing) (simp_all add: MAX_STR_DIGITS_def)
  with a show ?thesis by simp
qed

text \<open>
  \<open>str\<close> of an integer of at most 4300 digits is its decimal text; beyond that it
  raises \<open>ValueError\<close>.
\<close>

lemma py_str_int_in_limit:
  "\<bar>i\<bar> < 10 ^ nat MAX_STR_DIGITS \<Longrightarrow> py_str_int i = Inr (int_text i)"
  using abs_digits_length[of i] by (simp add: py_str_int_def)

lemma py_str_int_beyond_limit:
  assumes "10 ^ nat MAX_STR_DIGITS \<le> \<bar>i\<bar>"
  shows "py_str_int i = Inl ValueError"
proof -
  have "int (10 ^ nat MAX_STR_DIGITS) \<le> int (nat \<bar>i\<bar>)"
    using assms by simp
  then have "10 ^ nat MAX_STR_DIGITS \<le> nat \<bar>i\<bar>"
    by (simp only: of_nat_le_iff)
  then have "nat MAX_STR_DIGITS < length (nat_digits (nat \<bar>i\<bar>))"
    by (rule nat_digits_length_beyond)
  then have "MAX_STR_DIGITS < int (length (nat_digits (nat \<bar>i\<bar>)))"
    by linarith
  then show ?thesis
    by (simp add: py_str_int_def)
qed

lemma format_parts_text:
  "\<forall>item \<in> set items. \<bar>quantity item\<bar> < 10 ^ nat MAX_STR_DIGITS \<Longrightarrow>
   format_parts items
   = Inr (map (\<lambda>item. name item @ '' x'' @ int_text (quantity item)) items)"
  by (induction items) (simp_all add: py_str_int_in_limit)

lemma format_order_items_text:
  "\<forall>item \<in> set items. \<bar>quantity item\<bar> < 10 ^ nat MAX_STR_DIGITS \<Longrightarrow>
   format_order_items items = Inr (format_text items)"
  by (simp add: format_order_items_def format_text_def format_parts_text)

text \<open>
  When \<open>calculate_totals\<close> returns, every quantity has been converted to a float, so
  it is far below the digit limit and \<open>format_order_items\<close> returns as well.
\<close>

lemma line_total_quantity: "line_total item = Inr t \<Longrightarrow> \<exists>x. float_of_int (quantity item) = Inr x"
  by (auto simp: line_total_def split: sum.splits)

lemma sum_line_totals_quantities:
  "sum_line_totals acc items = Inr s \<Longrightarrow>
   \<forall>item \<in> set items. \<bar>quantity item\<bar> < 10 ^ nat MAX_STR_DIGITS"
proof (induction items arbitrary: acc)
  case Nil
  then show ?case by simp
next
  case (Cons item items)
  from Cons.prems obtain t where t: "line_total item = Inr t"
    and rest: "sum_line_totals (fadd acc t) items = Inr s"
    by (auto split: sum.splits)
  from line_total_quantity[OF t] float_of_int_in_limit
  have "\<bar>quantity item\<bar> < 10 ^ nat MAX_STR_DIGITS"
    by blast
  with Cons.IH[OF rest] show ?case by simp
qed

lemma billing_core_totals_format:
  "billing_core_calculate_totals items = Inr r \<Longrightarrow> format_order_items items = Inr (format_text items)"
  by (auto simp: billing_core_calculate_totals_def split: sum.splits
      intro!: format_order_items_text dest: sum_line_totals_quantities)

lemma pos_logic_totals_format:
  "pos_logic_calculate_totals items = Inr r \<Longrightarrow> format_order_items items = Inr (format_text items)"
  by (auto simp: pos_logic_calculate_totals_def split: sum.splits
      intro!: format_order_items_text dest: sum_line_totals_quantities)

section \<open>Validation and persistence\<close>

lemma float_of_int_error: "float_of_int i = Inl e \<Longrightarrow> e = OverflowError"
  by (auto simp: float_of_int_def split: pyfloat.splits)

lemma line_total_error: "line_total item = Inl e \<Longrightarrow> e = OverflowError"
  by (auto simp: line_total_def split: sum.splits dest: float_of_int_error)

lemma sum_line_totals_error: "sum_line_totals acc items = Inl e \<Longrightarrow> e = OverflowError"
  by (induction items arbitrary: acc) (auto split: sum.splits dest: line_total_error)

lemma billing_core_calculate_totals_error:
  "billing_core_calculate_totals items = Inl e \<Longrightarrow> e = OverflowError"
  by (auto simp: billing_core_calculate_totals_def Let_def split: sum.splits
      dest: sum_line_totals_error)

lemma pos_logic_calculate_totals_error:
  "pos_logic_calculate_totals items = Inl e \<Longrightarrow> e = OverflowError"
  by (auto simp: pos_logic_calculate_totals_def Let_def split: sum.splits
      dest: sum_line_totals_error)

lemma save_transaction_ValueError_iff:
  assumes "\<And>e. calc items = Inl e \<Longrightarrow> e = OverflowError"
    and "\<And>r. calc items = Inr r \<Longrightarrow> format_order_items items = Inr (format_text items)"
  shows "fst (save_transaction calc cn items pm now f) = Inl ValueError
         \<longleftrightarrow> strip cn = [] \<or> items = []"
proof (cases "calc items")
  case (Inl e)
  with assms(1) have "e = OverflowError" by blast
  with Inl show ?thesis
    by (simp add: save_transaction_def)
next
  case (Inr r)
  from assms(2)[OF Inr] Inr show ?thesis
    by (cases r) (simp add: save_transaction_def Let_def)
qed

lemma save_transaction_failure_keeps_file:
  "fst (save_transaction calc cn items pm now f) = Inl e
   \<Longrightarrow> snd (save_transaction calc cn items pm now f) = f"
  by (auto simp: save_transaction_def Let_def split: if_splits sum.splits prod.splits)

text \<open>
  C6. \<open>validate_quantity q\<close> fails (with the source's \<open>ValueError\<close>) exactly when
  \<open>q \<le> 0\<close> and otherwise returns \<open>q\<close>; \<open>save_transaction\<close> fails with that error
  exactly when the customer name trims to empty or the item list is empty. The error is
  the result of the call itself, and it is decided by the two checks that open the
  function.
\<close>

theorem validation_raises_iff:
  "(validate_quantity q = Inl ValueError \<longleftrightarrow> q \<le> 0)
   \<and> (\<forall>e. validate_quantity q = Inl e \<longrightarrow> e = ValueError)
   \<and> (0 < q \<longrightarrow> validate_quantity q = Inr q)
   \<and> (fst (billing_core_save_transaction cn items pm now f) = Inl ValueError
        \<longleftrightarrow> strip cn = [] \<or> items = [])
   \<and> (fst (pos_logic_save_transaction cn items pm now f) = Inl ValueError
        \<longleftrightarrow> strip cn = [] \<or> items = [])"
proof -
  have v: "(validate_quantity q = Inl ValueError \<longleftrightarrow> q \<le> 0)
      \<and> (\<forall>e. validate_quantity q = Inl e \<longrightarrow> e = ValueError)
      \<and> (0 < q \<longrightarrow> validate_quantity q = Inr q)"
    by (simp add: validate_quantity_def)
  have b: "fst (billing_core_save_transaction cn items pm now f) = Inl ValueError
      \<longleftrightarrow> strip cn = [] \<or> items = []"
    unfolding billing_core_save_transaction_def
    by (rule save_transaction_ValueError_iff)
      (erule billing_core_calculate_totals_error, erule billing_core_totals_format)
  have p: "fst (pos_logic_save_transaction cn items pm now f) = Inl ValueError
      \<longleftrightarrow> strip cn = [] \<or> items = []"
    unfolding pos_logic_save_transaction_def
    by (rule save_transaction_ValueError_iff)
      (erule pos_logic_calculate_totals_error, erule pos_logic_totals_format)
  from v b p show ?thesis by blast
qed

theorem validation_raises_iff_witness:
  "validate_quantity 3 = Inr 3
   \<and> validate_quantity 0 = Inl ValueError
   \<and> validate_quantity (- 5) = Inl ValueError
   \<and> fst (billing_core_save_transaction '''' [\<lparr>name = ''Latte'', quantity = 2, unit_price = Fin 120\<rparr>]
            ''Cash'' ''2024-01-01 10:00:00'' None) = Inl ValueError
   \<and> fst (billing_core_save_transaction ''Alice'' [] ''Cash'' ''2024-01-01 10:00:00'' None)
       = Inl ValueError"
  using validation_raises_iff [of 3 "''''" "[\<lparr>name = ''Latte'', quantity = 2, unit_price = Fin 120\<rparr>]"
          "''Cash''" "''2024-01-01 10:00:00''" None]
        validation_raises_iff [of 0 "''Alice''" "[]" "''Cash''" "''2024-01-01 10:00:00''" None]
        validation_raises_iff [of "- 5" "''Alice''" "[]" "''Cash''" "''2024-01-01 10:00:00''" None]
  by (simp add: strip_def lstrip_def rstrip_def)

text \<open>
  C10. The two checks of \<open>save_transaction\<close> come before any access to the sales
  file: when the call fails with the validation error, the file is what it was, absent
  or not, without header and without new record.
\<close>

theorem save_transaction_atomic:
  "(fst (billing_core_save_transaction cn items pm now f) = Inl ValueError
      \<longrightarrow> snd (billing_core_save_transaction cn items pm now f) = f)
   \<and> (fst (pos_logic_save_transaction cn items pm now f) = Inl ValueError
      \<longrightarrow> snd (pos_logic_save_transaction cn items pm now f) = f)"
  unfolding billing_core_save_transaction_def pos_logic_save_transaction_def
  by (blast intro: save_transaction_failure_keeps_file)

theorem save_transaction_atomic_witness:
  "fst (billing_core_save_transaction ''  '' [] ''Cash'' ''2024-01-01 10:00:00'' None) = Inl ValueError
   \<and> snd (billing_core_save_transaction ''  '' [] ''Cash'' ''2024-01-01 10:00:00'' None) = None
   \<and> fst (pos_logic_save_transaction ''Alice'' [] ''Cash'' ''2024-01-01 10:00:00'' (Some [])) = Inl ValueError
   \<and> snd (pos_logic_save_transaction ''Alice'' [] ''Cash'' ''2024-01-01 10:00:00'' (Some [])) = Some []"
  using save_transaction_atomic [of "''  ''" "[]" "''Cash''" "''2024-01-01 10:00:00''" None]
        save_transaction_atomic [of "''Alice''" "[]" "''Cash''" "''2024-01-01 10:00:00''" "Some []"]
  by (simp add: billing_core_save_transaction_def pos_logic_save_transaction_def
      save_transaction_def strip_def lstrip_def rstrip_def is_space_def)

section \<open>The two copies of the totals computation\<close>

lemma billing_core_eighth:
  "billing_core_calculate_totals [\<lparr>name = ''Tea'', quantity = 1, unit_price = Fin (1 / 8)\<rparr>]
   = Inr (Fin (1080863910568919 / 9007199254740992),
          Fin (5764607523034235 / 576460752303423488),
          Fin (1261007895663739 / 9007199254740992))"
  by code_simp

lemma pos_logic_eighth:
  "pos_logic_calculate_totals [\<lparr>name = ''Tea'', quantity = 1, unit_price = Fin (1 / 8)\<rparr>]
   = Inr (Fin (1080863910568919 / 9007199254740992),
          Fin (5764607523034235 / 576460752303423488),
          Fin (1170935903116329 / 9007199254740992))"
  by code_simp

lemma twelve_plus_one_cent:
  "round2 (fadd (Fin (1080863910568919 / 9007199254740992))
                (Fin (5764607523034235 / 576460752303423488)))
   = Fin (1170935903116329 / 9007199254740992)"
  by code_simp

text \<open>
  The order of the specification's own example, two Latte at 120.0 and one Vada pav at
  30.0: both copies return 270.00, 13.50 and 283.50.
\<close>

lemma calculate_totals_example:
  "pos_logic_calculate_totals
     [\<lparr>name = ''Latte'', quantity = 2, unit_price = Fin 120\<rparr>,
      \<lparr>name = ''Vada pav'', quantity = 1, unit_price = Fin 30\<rparr>]
   = Inr (Fin 270, Fin (27 / 2), Fin (567 / 2))
   \<and> billing_core_calculate_totals
     [\<lparr>name = ''Latte'', quantity = 2, unit_price = Fin 120\<rparr>,
      \<lparr>name = ''Vada pav'', quantity = 1, unit_price = Fin 30\<rparr>]
   = Inr (Fin 270, Fin (27 / 2), Fin (567 / 2))"
  by code_simp

text \<open>
  The copy of \<open>pos_logic.py\<close> computes what the specification asks of
  \<open>calculate_totals\<close>: the returned subtotal is the rounded sum of the line totals,
  the tax is the rounded product of that subtotal and the rate, the final total is the
  rounded sum of the two; without items all three are zero.
\<close>

lemma pos_logic_calculate_totals_spec:
  "pos_logic_calculate_totals items = Inr (subtotal, gst, final_total) \<longleftrightarrow>
     (\<exists>s. sum_line_totals (Fin 0) items = Inr s
          \<and> subtotal = round2 s
          \<and> gst = round2 (fmul subtotal GST_RATE)
          \<and> final_total = round2 (fadd subtotal gst))"
  by (auto simp: pos_logic_calculate_totals_def Let_def split: sum.splits)

lemma calculate_totals_empty:
  "pos_logic_calculate_totals [] = Inr (Fin 0, Fin 0, Fin 0)
   \<and> billing_core_calculate_totals [] = Inr (Fin 0, Fin 0, Fin 0)"
  by code_simp

text \<open>
  C1, at one item of unit price 0.125 and quantity 1. The copy of \<open>billing_core.py\<close>
  returns the subtotal 0.12, the tax 0.01 and the final total 0.14, because it adds the
  tax to the unrounded subtotal 0.125; the sum of the returned subtotal and tax rounds
  to 0.13, which is what the copy of \<open>pos_logic.py\<close> returns.
\<close>

theorem billing_core_final_total_differs:
  "\<exists>subtotal gst final_total.
     billing_core_calculate_totals [\<lparr>name = ''Tea'', quantity = 1, unit_price = Fin (1 / 8)\<rparr>]
       = Inr (subtotal, gst, final_total)
     \<and> gst = round2 (fmul subtotal GST_RATE)
     \<and> final_total \<noteq> round2 (fadd subtotal gst)"
proof -
  have g: "round2 (fmul (Fin (1080863910568919 / 9007199254740992)) GST_RATE)
           = Fin (5764607523034235 / 576460752303423488)"
    by code_simp
  have "Fin (1261007895663739 / 9007199254740992)
        \<noteq> round2 (fadd (Fin (1080863910568919 / 9007199254740992))
                       (Fin (5764607523034235 / 576460752303423488)))"
    unfolding twelve_plus_one_cent by simp
  with g billing_core_eighth show ?thesis by metis
qed

text \<open>
  C8. The two copies of \<open>calculate_totals\<close> are not the same function: on the item of
  unit price 0.125 and quantity 1 the copy of \<open>billing_core.py\<close> returns the final
  total 0.14 and the copy of \<open>pos_logic.py\<close> returns 0.13.
\<close>

theorem calculate_totals_copies_differ:
  "\<exists>items. billing_core_calculate_totals items \<noteq> pos_logic_calculate_totals items"
proof
  show "billing_core_calculate_totals [\<lparr>name = ''Tea'', quantity = 1, unit_price = Fin (1 / 8)\<rparr>]
        \<noteq> pos_logic_calculate_totals [\<lparr>name = ''Tea'', quantity = 1, unit_price = Fin (1 / 8)\<rparr>]"
    unfolding billing_core_eighth pos_logic_eighth by simp
qed


section \<open>Decoding the ordered items\<close>

lemma lstrip_Nil [simp]: "lstrip [] = []"
  by (simp add: lstrip_def)

lemma lstrip_Cons: "lstrip (c # cs) = (if is_space c then lstrip cs else c # cs)"
  by (simp add: lstrip_def)

lemma rstrip_Nil [simp]: "rstrip [] = []"
  by (simp add: rstrip_def)

lemma rstrip_Cons:
  "rstrip (c # cs) = (if rstrip cs = [] \<and> is_space c then [] else c # rstrip cs)"
proof (cases "\<forall>x \<in> set (rev cs). is_space x")
  case True
  then have "dropWhile is_space (rev cs @ [c]) = dropWhile is_space [c]"
    by (intro dropWhile_append2) auto
  moreover from True have "dropWhile is_space (rev cs) = []"
    by simp
  ultimately show ?thesis
    by (simp add: rstrip_def)
next
  case False
  then obtain x where x: "x \<in> set (rev cs)" "\<not> is_space x"
    by blast
  then have "dropWhile is_space (rev cs @ [c]) = dropWhile is_space (rev cs) @ [c]"
    by (rule dropWhile_append1)
  moreover from x have "dropWhile is_space (rev cs) \<noteq> []"
    by (auto simp: dropWhile_eq_Nil_conv)
  ultimately show ?thesis
    by (simp add: rstrip_def)
qed

lemma rstrip_eq_Nil_iff: "rstrip s = [] \<longleftrightarrow> (\<forall>c \<in> set s. is_space c)"
  by (induction s) (auto simp: rstrip_Cons)

lemma lstrip_eq_Nil_iff: "lstrip s = [] \<longleftrightarrow> (\<forall>c \<in> set s. is_space c)"
  by (simp add: lstrip_def dropWhile_eq_Nil_conv)

lemma set_lstrip: "set (lstrip s) \<subseteq> set s"
  by (simp add: lstrip_def set_dropWhileD subsetI)

lemma strip_eq_Nil_iff: "strip s = [] \<longleftrightarrow> (\<forall>c \<in> set s. is_space c)"
proof
  assume "strip s = []"
  then have "\<forall>c \<in> set (lstrip s). is_space c"
    by (simp add: strip_def rstrip_eq_Nil_iff)
  then have "lstrip s = []"
    by (metis hd_dropWhile hd_in_set lstrip_def)
  then show "\<forall>c \<in> set s. is_space c"
    by (simp add: lstrip_eq_Nil_iff)
next
  assume "\<forall>c \<in> set s. is_space c"
  then show "strip s = []"
    by (simp add: strip_def lstrip_eq_Nil_iff[THEN iffD2])
qed

lemma hd_rstrip: "s \<noteq> [] \<Longrightarrow> \<not> is_space (hd s) \<Longrightarrow> rstrip s \<noteq> [] \<and> hd (rstrip s) = hd s"
  by (cases s) (auto simp: rstrip_Cons)

lemma hd_strip: "strip s \<noteq> [] \<Longrightarrow> \<not> is_space (hd (strip s))"
proof -
  assume a: "strip s \<noteq> []"
  then have n: "lstrip s \<noteq> []"
    by (auto simp: strip_def)
  then have "\<not> is_space (hd (lstrip s))"
    unfolding lstrip_def by (rule hd_dropWhile)
  with n show ?thesis
    by (simp add: strip_def hd_rstrip)
qed

lemma strip_keeps_hd: "s \<noteq> [] \<Longrightarrow> \<not> is_space (hd s) \<Longrightarrow> strip s \<noteq> [] \<and> hd (strip s) = hd s"
  by (cases s) (auto simp: strip_def lstrip_Cons rstrip_Cons)

lemma last_rstrip: "rstrip s \<noteq> [] \<Longrightarrow> \<not> is_space (last (rstrip s))"
  by (induction s) (auto simp: rstrip_Cons)

lemma rstrip_id: "s = [] \<or> \<not> is_space (last s) \<Longrightarrow> rstrip s = s"
  by (induction s) (auto simp: rstrip_Cons rstrip_eq_Nil_iff split: if_splits)

lemma lstrip_id: "s = [] \<or> \<not> is_space (hd s) \<Longrightarrow> lstrip s = s"
  by (cases s) (auto simp: lstrip_Cons)

lemma strip_id: "s = [] \<or> (\<not> is_space (hd s) \<and> \<not> is_space (last s)) \<Longrightarrow> strip s = s"
  by (auto simp: strip_def lstrip_id rstrip_id)

lemma last_strip: "strip s \<noteq> [] \<Longrightarrow> \<not> is_space (last (strip s))"
  by (simp add: strip_def last_rstrip)

lemma strip_strip [simp]: "strip (strip s) = strip s"
  by (rule strip_id) (use hd_strip last_strip in blast)

lemma py_int_strip [simp]: "py_int (strip s) = py_int s"
  by (simp add: py_int_def)

lemma py_int_error: "py_int s = Inl e \<Longrightarrow> e = ValueError"
  by (auto simp: py_int_def Let_def split: if_splits)

lemma rfind_SomeD:
  "rfind sep s = Some i \<Longrightarrow> i + length sep \<le> length s \<and> take (length sep) (drop i s) = sep"
proof (induction s arbitrary: i)
  case Nil
  then show ?case by (auto split: if_splits)
next
  case (Cons c cs)
  show ?case
  proof (cases "rfind sep cs")
    case None
    with Cons.prems have i: "i = 0" and sw: "startswith (c # cs) sep"
      by (auto split: if_splits)
    from sw have tk: "take (length sep) (c # cs) = sep"
      by (simp add: startswith_def)
    have "length sep \<le> length (c # cs)"
      using arg_cong[OF tk, of length] by simp
    with tk show ?thesis using i by simp
  next
    case (Some j)
    with Cons.prems have "i = Suc j" by simp
    with Cons.IH[OF Some] show ?thesis by simp
  qed
qed

lemma rsplit1_Some: "rfind sep s = Some i \<Longrightarrow> rsplit1 sep s = [take i s, drop (i + length sep) s]"
  by (simp add: rsplit1_def)

lemma name_part_nonempty:
  assumes p: "strip seg \<noteq> []" and r: "rfind '' x'' (strip seg) = Some i"
  shows "strip (take i (strip seg)) \<noteq> []"
proof -
  let ?p = "strip seg"
  from rfind_SomeD[OF r] have le: "i + 2 \<le> length ?p"
    and tk: "take (Suc (Suc 0)) (drop i ?p) = '' x''"
    by simp_all
  from le have "drop i ?p = ?p ! i # drop (Suc i) ?p"
    by (simp add: Cons_nth_drop_Suc)
  with tk have at: "?p ! i = CHR '' ''"
    by simp
  have sp: "is_space CHR '' ''"
    by (simp add: is_space_def)
  have "i \<noteq> 0"
  proof
    assume "i = 0"
    with at have "hd ?p = CHR '' ''"
      using p by (simp add: hd_conv_nth)
    with hd_strip[OF p] sp show False by simp
  qed
  then have ne: "take i ?p \<noteq> []" using p by simp
  moreover have "hd (take i ?p) = hd ?p"
    using \<open>i \<noteq> 0\<close> by (simp add: hd_take)
  ultimately show ?thesis
    using strip_keeps_hd[of "take i ?p"] hd_strip[OF p] by simp
qed

lemma tally_Nil [simp]: "tally c [] = c"
  by (simp add: tally_def)

lemma tally_Cons [simp]: "tally c ((n, q) # evs) = tally (counter_add c n q) evs"
  by (simp add: tally_def)

lemma parse_parts_tally:
  "parse_parts c parts = Inr (tally c (List.map_filter decode_segment parts))"
proof (induction parts arbitrary: c)
  case Nil
  then show ?case by (simp add: map_filter_simps)
next
  case (Cons part parts)
  show ?case
  proof (cases "strip part = []")
    case True
    then show ?thesis
      by (simp add: Cons.IH map_filter_simps decode_segment_def)
  next
    case False
    show ?thesis
    proof (cases "rfind '' x'' (strip part)")
      case None
      with False show ?thesis
        by (simp add: Cons.IH map_filter_simps decode_segment_def)
    next
      case (Some i)
      note ne = name_part_nonempty[OF False Some]
      show ?thesis
      proof (cases "py_int (drop (i + 2) (strip part))")
        case (Inl e)
        then have "e = ValueError" by (rule py_int_error)
        with Inl False Some ne show ?thesis
          by (simp add: Cons.IH map_filter_simps decode_segment_def rsplit1_Some)
      next
        case (Inr q)
        with False Some ne show ?thesis
          by (simp add: Cons.IH map_filter_simps decode_segment_def rsplit1_Some)
      qed
    qed
  qed
qed

lemma split_char_parts: "p \<in> set (split_char sep s) \<Longrightarrow> set p \<subseteq> set s"
proof (induction s arbitrary: p)
  case Nil
  then show ?case by simp
next
  case (Cons c cs)
  show ?case
  proof (cases "split_char sep cs")
    case Nil
    with Cons.prems show ?thesis by auto
  next
    case (Cons a ps)
    with Cons.IH have "set a \<subseteq> set cs" and "\<And>q. q \<in> set ps \<Longrightarrow> set q \<subseteq> set cs"
      by auto
    with Cons Cons.prems show ?thesis
      by (fastforce split: if_splits)
  qed
qed

lemma decode_segment_None_iff: "decode_segment seg = None \<longleftrightarrow> strip seg = []"
  by (simp add: decode_segment_def Let_def split: option.splits)

lemma decode_events_Nil [simp]: "decode_events [] = []"
  by (simp add: decode_events_def map_filter_simps decode_segment_def strip_def)

lemma parse_ordered_items_decode: "parse_ordered_items s = Inr (tally [] (decode_events s))"
proof (cases "s = []")
  case True
  then show ?thesis by (simp add: parse_ordered_items_def)
next
  case False
  then show ?thesis
    by (simp add: parse_ordered_items_def parse_parts_tally decode_events_def)
qed

lemma decode_events_blank:
  assumes "\<forall>c \<in> set s. is_space c"
  shows "decode_events s = []"
proof -
  have "decode_segment p = None" if "p \<in> set (split_char CHR '';'' s)" for p
    using split_char_parts[OF that] assms
    by (auto simp: decode_segment_None_iff strip_eq_Nil_iff)
  then show ?thesis
    by (simp add: decode_events_def map_filter_def)
qed

text \<open>\<open>rfind\<close> gives the last occurrence: no occurrence starts at a higher index.\<close>

lemma rfind_None_iff:
  "rfind sep s = None \<longleftrightarrow> (\<forall>j. j + length sep \<le> length s \<longrightarrow> take (length sep) (drop j s) \<noteq> sep)"
proof (induction s)
  case Nil
  then show ?case by auto
next
  case (Cons c cs)
  show ?case
  proof
    assume n: "rfind sep (c # cs) = None"
    then have n1: "rfind sep cs = None" and n2: "\<not> startswith (c # cs) sep"
      by (auto split: option.splits if_splits)
    show "\<forall>j. j + length sep \<le> length (c # cs) \<longrightarrow> take (length sep) (drop j (c # cs)) \<noteq> sep"
    proof (intro allI impI)
      fix j
      assume le: "j + length sep \<le> length (c # cs)"
      show "take (length sep) (drop j (c # cs)) \<noteq> sep"
      proof (cases j)
        case 0
        with n2 show ?thesis by (simp add: startswith_def)
      next
        case (Suc k)
        with le n1 Cons.IH show ?thesis by simp
      qed
    qed
  next
    assume a: "\<forall>j. j + length sep \<le> length (c # cs) \<longrightarrow> take (length sep) (drop j (c # cs)) \<noteq> sep"
    have "rfind sep cs = None"
    proof (rule Cons.IH[THEN iffD2], intro allI impI)
      fix j
      assume "j + length sep \<le> length cs"
      with a[rule_format, of "Suc j"] show "take (length sep) (drop j cs) \<noteq> sep"
        by simp
    qed
    moreover have "\<not> startswith (c # cs) sep"
    proof
      assume sw: "startswith (c # cs) sep"
      then have tk: "take (length sep) (c # cs) = sep"
        by (simp add: startswith_def)
      have "length sep \<le> length (c # cs)"
        using arg_cong[OF tk, of length] by simp
      with a[rule_format, of 0] tk show False by simp
    qed
    ultimately show "rfind sep (c # cs) = None" by simp
  qed
qed

lemma rfind_greatest:
  "rfind sep s = Some i \<Longrightarrow> i < j \<Longrightarrow> j + length sep \<le> length s
   \<Longrightarrow> take (length sep) (drop j s) \<noteq> sep"
proof (induction s arbitrary: i j)
  case Nil
  then show ?case by simp
next
  case (Cons c cs)
  from Cons.prems(2) obtain k where j: "j = Suc k"
    by (cases j) auto
  show ?case
  proof (cases "rfind sep cs")
    case None
    with Cons.prems(3) j rfind_None_iff[of sep cs] show ?thesis by simp
  next
    case (Some i')
    with Cons.prems(1) have "i = Suc i'" by simp
    with Cons.prems j Cons.IH[OF Some, of k] show ?thesis by simp
  qed
qed

text \<open>
  C4. \<open>_parse_ordered_items\<close> returns for every string, and returns the tally of
  the segments as the specification decodes them: each segment between semicolons is
  trimmed, cut at the last \<open>" x"\<close>, a quantity text that is no integer counts as 1, and
  a segment without \<open>" x"\<close> is a name with quantity 1. The empty string and a string
  of whitespace give the empty mapping; \<open>"Samosa"\<close> and \<open>"Samosa xabc"\<close> give
  Samosa with quantity 1.
\<close>

theorem parse_ordered_items_lenient:
  "parse_ordered_items s = Inr (tally [] (decode_events s))
   \<and> ((\<forall>c \<in> set s. is_space c) \<longrightarrow> parse_ordered_items s = Inr [])
   \<and> parse_ordered_items [] = Inr []
   \<and> parse_ordered_items ''Samosa'' = Inr [(''Samosa'', 1)]
   \<and> parse_ordered_items ''Samosa xabc'' = Inr [(''Samosa'', 1)]"
proof -
  have "parse_ordered_items ''Samosa'' = Inr [(''Samosa'', 1)]"
    by code_simp
  moreover have "parse_ordered_items ''Samosa xabc'' = Inr [(''Samosa'', 1)]"
    by code_simp
  moreover have "(\<forall>c \<in> set s. is_space c) \<longrightarrow> parse_ordered_items s = Inr []"
    by (simp add: parse_ordered_items_decode decode_events_blank)
  ultimately show ?thesis
    by (simp add: parse_ordered_items_decode)
qed

theorem parse_ordered_items_lenient_witness:
  "is_space CHR '' '' \<and> is_space (CHR 0x09)
   \<and> parse_ordered_items [CHR '' '', CHR 0x09] = Inr []"
proof -
  have sp: "is_space CHR '' '' \<and> is_space (CHR 0x09)"
    by (simp add: is_space_def)
  then have "\<forall>c \<in> set [CHR '' '', CHR 0x09]. is_space c"
    by simp
  with parse_ordered_items_lenient [of "[CHR '' '', CHR 0x09]"]
  have "parse_ordered_items [CHR '' '', CHR 0x09] = Inr []"
    by blast
  with sp show ?thesis by blast
qed

lemma decode_segment_name:
  assumes "decode_segment seg = Some (n, q)"
  shows "n \<noteq> []"
proof (cases "rfind '' x'' (strip seg)")
  case None
  with assms show ?thesis
    by (auto simp: decode_segment_def Let_def split: if_splits)
next
  case (Some i)
  with assms have "strip seg \<noteq> []" and "n = strip (take i (strip seg))"
    by (auto simp: decode_segment_def Let_def split: if_splits)
  with name_part_nonempty[OF _ Some] show ?thesis by simp
qed

lemma decode_events_names: "(n, q) \<in> set (decode_events s) \<Longrightarrow> n \<noteq> []"
  by (auto simp: decode_events_def map_filter_def dest: decode_segment_name)

lemma keys_counter_set:
  "map fst (counter_set c k v)
   = (if k \<in> set (map fst c) then map fst c else map fst c @ [k])"
  by (induction c) (auto split: if_splits)

lemma set_counter_set: "fst ` set (counter_set c k v) = insert k (fst ` set c)"
proof -
  have "set (map fst (counter_set c k v)) = insert k (set (map fst c))"
    unfolding keys_counter_set by auto
  then show ?thesis by simp
qed

lemma keys_tally_subset: "fst ` set (tally c evs) \<subseteq> fst ` set c \<union> fst ` set evs"
proof (induction evs arbitrary: c)
  case Nil
  then show ?case by simp
next
  case (Cons ev evs)
  obtain n q where ev: "ev = (n, q)" by (cases ev)
  have "fst ` set (tally (counter_add c n q) evs)
        \<subseteq> fst ` set (counter_add c n q) \<union> fst ` set evs"
    by (rule Cons.IH)
  then show ?case
    by (auto simp: ev counter_add_def set_counter_set)
qed

text \<open>
  C9, as the code has it. Every key that \<open>_parse_ordered_items\<close> returns is a
  non-empty string, and a segment is left out exactly when it is empty after trimming:
  a trimmed segment never begins with a space, so the name before its last \<open>" x"\<close> is
  never empty. The segment \<open>" x2"\<close> trims to \<open>"x2"\<close>, which holds no \<open>" x"\<close>, and
  is tallied as the name x2 with quantity 1.
\<close>

theorem parsed_keys_nonempty:
  "(parse_ordered_items s = Inr c \<longrightarrow> (\<forall>k \<in> fst ` set c. k \<noteq> []))
   \<and> parse_ordered_items s = Inr (tally [] (List.map_filter decode_segment (split_char CHR '';'' s)))
   \<and> (decode_segment seg = None \<longleftrightarrow> strip seg = [])
   \<and> decode_segment '' x2'' = Some (''x2'', 1)"
proof -
  have "k \<noteq> []" if "parse_ordered_items s = Inr c" and "k \<in> fst ` set c" for k
  proof -
    from that have "k \<in> fst ` set (tally [] (decode_events s))"
      by (simp add: parse_ordered_items_decode)
    with keys_tally_subset[of "[]" "decode_events s"] have "k \<in> fst ` set (decode_events s)"
      by auto
    then show ?thesis
      by (auto dest: decode_events_names)
  qed
  moreover have "decode_segment '' x2'' = Some (''x2'', 1)"
    by code_simp
  ultimately show ?thesis
    using parse_ordered_items_decode[of s]
    by (simp add: decode_events_def decode_segment_None_iff)
qed

theorem parsed_keys_nonempty_witness:
  "parse_ordered_items ''Latte x2;  ; x'' = Inr [(''Latte'', 2), (''x'', 1)]
   \<and> ''Latte'' \<noteq> [] \<and> ''x'' \<noteq> []"
proof -
  have e: "parse_ordered_items ''Latte x2;  ; x'' = Inr [(''Latte'', 2), (''x'', 1)]"
    by code_simp
  from parsed_keys_nonempty [of "''Latte x2;  ; x''" "[(''Latte'', 2), (''x'', 1)]" "[]", THEN conjunct1] e
  have "\<forall>k \<in> fst ` set [(''Latte'', 2 :: int), (''x'', 1)]. k \<noteq> []"
    by blast
  then have "''Latte'' \<noteq> [] \<and> ''x'' \<noteq> []"
    by simp
  with e show ?thesis by blast
qed

text \<open>
  The segment \<open>" x2"\<close>, which consists of a quantity suffix only, is not dropped: it
  contributes the key x2.
\<close>

theorem quantity_suffix_segment_kept:
  "parse_ordered_items '' x2'' = Inr [(''x2'', 1)] \<and> parse_ordered_items '' x2'' \<noteq> Inr []"
  by code_simp

section \<open>The daily summary\<close>

lemma py_float_error: "py_float s = Inl e \<Longrightarrow> e = ValueError"
  by (auto simp: py_float_def Let_def split: if_splits option.splits)

lemma number_field_error: "number_field row key = Inl e \<Longrightarrow> e = ValueError"
  by (auto simp: number_field_def split: option.splits cell.splits if_splits dest: py_float_error)

lemma add_field_skip: "number_field row key = Inl e \<Longrightarrow> add_field acc row key = Inr acc"
  by (auto simp: add_field_def dest: number_field_error)

lemma add_field_add: "number_field row key = Inr v \<Longrightarrow> add_field acc row key = Inr (fadd acc v)"
  by (simp add: add_field_def)

lemma add_field_returns: "\<exists>v. add_field acc row key = Inr v"
  by (cases "number_field row key") (auto simp: add_field_skip add_field_add)

lemma row_items_decode: "row_items row = Inr (tally [] (row_events row))"
  by (auto simp: row_items_def row_events_def parse_ordered_items_decode
      split: option.splits cell.splits)

lemma summary_loop_returns: "\<exists>r. summary_loop acc rows = Inr r"
proof (induction rows arbitrary: acc)
  case Nil
  show ?case by (cases acc) auto
next
  case (Cons row rows)
  obtain ts tg ic where acc: "acc = (ts, tg, ic)"
    by (cases acc) auto
  obtain ts' where ts': "add_field ts row ''FinalTotal'' = Inr ts'"
    using add_field_returns by blast
  obtain tg' where tg': "add_field tg row ''GST'' = Inr tg'"
    using add_field_returns by blast
  from Cons.IH[of "(ts', tg', counter_update ic (tally [] (row_events row)))"]
  show ?case
    by (simp add: acc ts' tg' row_items_decode)
qed

lemma most_sold_returns: "\<exists>t. most_sold c = Inr t"
  by (cases c) (simp_all add: most_sold_def most_common1_def)

lemma compute_daily_summary_returns: "\<exists>r. compute_daily_summary rows = Inr r"
proof (cases "rows = []")
  case True
  then show ?thesis by (simp add: compute_daily_summary_def)
next
  case False
  obtain ts tg ic where l: "summary_loop (Fin 0, Fin 0, []) rows = Inr (ts, tg, ic)"
    using summary_loop_returns[of "(Fin 0, Fin 0, [])" rows] by (metis prod_cases3)
  obtain t where "most_sold ic = Inr t"
    using most_sold_returns by blast
  with False l show ?thesis
    by (simp add: compute_daily_summary_def)
qed

lemma summary_example:
  "compute_daily_summary
     [[''OrderedItems'' \<mapsto> PyStr ''Latte x2; Vada pav x1'', ''GST'' \<mapsto> PyStr ''13.50'',
       ''FinalTotal'' \<mapsto> PyStr ''283.50'', ''DateTime'' \<mapsto> PyStr ''2024-05-01 09:15:00''],
      [''OrderedItems'' \<mapsto> PyStr ''Espresso x1'', ''GST'' \<mapsto> PyStr ''abc'',
       ''FinalTotal'' \<mapsto> PyStr ''100.00'', ''DateTime'' \<mapsto> PyStr ''2024-05-01 11:30:00''],
      [''OrderedItems'' \<mapsto> PyStr ''Samosa x2'', ''GST'' \<mapsto> PyStr ''2.38'',
       ''FinalTotal'' \<mapsto> PyStr ''50.00'', ''DateTime'' \<mapsto> PyStr ''2024-05-01 17:45:00'']]
   = Inr (Fin (867 / 2), Fin (8939645260330435 / 562949953421312), 3, ''Latte'')"
  by code_simp

text \<open>
  C5. \<open>compute_daily_summary\<close> returns for every list of rows. A \<open>FinalTotal\<close> or
  \<open>GST\<close> value that \<open>float\<close> rejects leaves its running total as it was. Three rows
  of one day with the final totals 283.50, 100.00 and 50.00, the second with the GST text
  \<open>abc\<close>, give the total sales 433.50 (and the GST total 13.50 + 2.38 = 15.88).
\<close>

theorem compute_daily_summary_tolerant:
  "(\<exists>r. compute_daily_summary rows = Inr r)
   \<and> (number_field row ''FinalTotal'' = Inl e
        \<longrightarrow> (\<exists>g c. summary_loop (total_sales, total_gst, item_counter) [row]
                     = Inr (total_sales, g, c)))
   \<and> (number_field row ''GST'' = Inl e
        \<longrightarrow> (\<exists>t c. summary_loop (total_sales, total_gst, item_counter) [row]
                     = Inr (t, total_gst, c)))
   \<and> (compute_daily_summary
          [[''OrderedItems'' \<mapsto> PyStr ''Latte x2; Vada pav x1'', ''GST'' \<mapsto> PyStr ''13.50'',
            ''FinalTotal'' \<mapsto> PyStr ''283.50'', ''DateTime'' \<mapsto> PyStr ''2024-05-01 09:15:00''],
           [''OrderedItems'' \<mapsto> PyStr ''Espresso x1'', ''GST'' \<mapsto> PyStr ''abc'',
            ''FinalTotal'' \<mapsto> PyStr ''100.00'', ''DateTime'' \<mapsto> PyStr ''2024-05-01 11:30:00''],
           [''OrderedItems'' \<mapsto> PyStr ''Samosa x2'', ''GST'' \<mapsto> PyStr ''2.38'',
            ''FinalTotal'' \<mapsto> PyStr ''50.00'', ''DateTime'' \<mapsto> PyStr ''2024-05-01 17:45:00'']]
        = Inr (Fin (867 / 2), Fin (8939645260330435 / 562949953421312), 3, ''Latte''))"
proof -
  have a: "number_field row ''FinalTotal'' = Inl e
        \<longrightarrow> (\<exists>g c. summary_loop (total_sales, total_gst, item_counter) [row]
                     = Inr (total_sales, g, c))"
  proof
    assume "number_field row ''FinalTotal'' = Inl e"
    then have "add_field total_sales row ''FinalTotal'' = Inr total_sales"
      by (rule add_field_skip)
    moreover obtain g where "add_field total_gst row ''GST'' = Inr g"
      using add_field_returns by blast
    ultimately show "\<exists>g c. summary_loop (total_sales, total_gst, item_counter) [row]
                     = Inr (total_sales, g, c)"
      by (simp add: row_items_decode)
  qed
  have b: "number_field row ''GST'' = Inl e
        \<longrightarrow> (\<exists>t c. summary_loop (total_sales, total_gst, item_counter) [row]
                     = Inr (t, total_gst, c))"
  proof
    assume "number_field row ''GST'' = Inl e"
    then have "add_field total_gst row ''GST'' = Inr total_gst"
      by (rule add_field_skip)
    moreover obtain t where "add_field total_sales row ''FinalTotal'' = Inr t"
      using add_field_returns by blast
    ultimately show "\<exists>t c. summary_loop (total_sales, total_gst, item_counter) [row]
                     = Inr (t, total_gst, c)"
      by (simp add: row_items_decode)
  qed
  from a b compute_daily_summary_returns[of rows] summary_example show ?thesis
    by blast
qed

theorem compute_daily_summary_tolerant_witness:
  "number_field [''GST'' \<mapsto> PyStr ''abc'', ''FinalTotal'' \<mapsto> PyStr ''100.00''] ''GST'' = Inl ValueError
   \<and> (\<exists>t c. summary_loop (Fin (567 / 2), Fin (27 / 2), [])
                [[''GST'' \<mapsto> PyStr ''abc'', ''FinalTotal'' \<mapsto> PyStr ''100.00'']]
              = Inr (t, Fin (27 / 2), c))"
proof -
  have n: "number_field [''GST'' \<mapsto> PyStr ''abc'', ''FinalTotal'' \<mapsto> PyStr ''100.00''] ''GST''
           = Inl ValueError"
    by code_simp
  with compute_daily_summary_tolerant
         [of "[]" "[''GST'' \<mapsto> PyStr ''abc'', ''FinalTotal'' \<mapsto> PyStr ''100.00'']" ValueError
             "Fin (567 / 2)" "Fin (27 / 2)" "[]"]
  show ?thesis by blast
qed

section \<open>Loading the transactions of the day\<close>

lemma load_rows_filter:
  assumes "\<forall>r \<in> set recs. dict_row fieldnames r ''DateTime'' \<noteq> Some PyNone"
  shows "load_rows today_str fieldnames recs
         = Inr (filter (date_matches today_str)
                  (map (dict_row fieldnames) (filter (\<lambda>r. r \<noteq> []) recs)))"
  using assms
proof (induction recs)
  case Nil
  then show ?case by simp
next
  case (Cons r recs)
  then have ih: "load_rows today_str fieldnames recs
         = Inr (filter (date_matches today_str)
                  (map (dict_row fieldnames) (filter (\<lambda>r. r \<noteq> []) recs)))"
    and ok: "dict_row fieldnames r ''DateTime'' \<noteq> Some PyNone"
    by simp_all
  show ?case
  proof (cases "r = []")
    case True
    with ih show ?thesis by simp
  next
    case False
    let ?row = "dict_row fieldnames r"
    show ?thesis
    proof (cases "?row ''DateTime''")
      case None
      then have "date_matches today_str ?row = startswith [] today_str"
        by (simp add: date_matches_def)
      with None False ih show ?thesis
        by (simp add: Let_def)
    next
      case (Some v)
      with ok obtain t where t: "v = PyStr t"
        by (cases v) auto
      with Some have "date_matches today_str ?row = startswith t today_str"
        by (simp add: date_matches_def)
      with Some t False ih show ?thesis
        by (simp add: Let_def)
    qed
  qed
qed

text \<open>A record too short to have a \<open>DateTime\<close> field stops the loading.\<close>

lemma load_rows_short_record:
  "load_rows ''2024-05-01'' HEADER [[''Asha'', ''Latte x2'']] = Inl AttributeError"
  by (simp add: HEADER_def dict_row_def)

text \<open>
  Four records, two of the current day, one of the day before and one with a date in
  another format: the report counts two transactions.
\<close>

lemma report_example:
  "show_daily_report ''2024-05-01''
     (Some [HEADER,
            [''Asha'', ''Latte x2'', ''240.00'', ''12.00'', ''252.00'', ''Cash'', ''2024-05-01 09:15:00''],
            [''Ravi'', ''Samosa x4'', ''100.00'', ''5.00'', ''105.00'', ''UPI'', ''2024-04-30 18:00:00''],
            [''Mina'', ''Espresso x1'', ''100.00'', ''5.00'', ''105.00'', ''Card'', ''01/05/2024 10:00''],
            [''Omar'', ''Samosa x1'', ''25.00'', ''1.25'', ''26.25'', ''Cash'', ''2024-05-01 12:40:00'']])
   = Inr (Fin (1113 / 4), Fin (53 / 4), 2, ''Latte'')"
  by code_simp

text \<open>
  Without a sales file, or with an empty one, nothing is loaded and the daily summary is
  (0.00, 0.00, 0, N/A). Over a file whose records all reach the \<open>DateTime\<close> column,
  the loaded rows are exactly the records whose \<open>DateTime\<close> text starts with the text
  of the current date, a record with any other text there is left out without an error,
  and the report is the summary of the loaded rows.
\<close>

lemma todays_transactions_filter:
  "((f = None \<or> f = Some []) \<longrightarrow>
      load_todays_transactions today_str f = Inr []
      \<and> show_daily_report today_str f = Inr (Fin 0, Fin 0, 0, ''N/A''))
   \<and> ((\<forall>r \<in> set recs. dict_row fieldnames r ''DateTime'' \<noteq> Some PyNone) \<longrightarrow>
        load_todays_transactions today_str (Some (fieldnames # recs))
        = Inr (filter (date_matches today_str)
                 (map (dict_row fieldnames) (filter (\<lambda>r. r \<noteq> []) recs)))
        \<and> show_daily_report today_str (Some (fieldnames # recs))
          = compute_daily_summary
              (filter (date_matches today_str)
                 (map (dict_row fieldnames) (filter (\<lambda>r. r \<noteq> []) recs))))"
proof -
  have "load_todays_transactions today_str f = Inr []
        \<and> show_daily_report today_str f = Inr (Fin 0, Fin 0, 0, ''N/A'')"
    if "f = None \<or> f = Some []"
    using that
    by (auto simp: load_todays_transactions_def show_daily_report_def compute_daily_summary_def)
  moreover have "load_todays_transactions today_str (Some (fieldnames # recs))
        = Inr (filter (date_matches today_str)
                 (map (dict_row fieldnames) (filter (\<lambda>r. r \<noteq> []) recs)))
        \<and> show_daily_report today_str (Some (fieldnames # recs))
          = compute_daily_summary
              (filter (date_matches today_str)
                 (map (dict_row fieldnames) (filter (\<lambda>r. r \<noteq> []) recs)))"
    if "\<forall>r \<in> set recs. dict_row fieldnames r ''DateTime'' \<noteq> Some PyNone"
    using load_rows_filter[OF that]
    by (simp add: load_todays_transactions_def show_daily_report_def)
  ultimately show ?thesis by blast
qed

lemma todays_transactions_filter_example:
  "show_daily_report ''2024-05-01'' None = Inr (Fin 0, Fin 0, 0, ''N/A'')
   \<and> dict_row [''CustomerName'', ''DateTime''] [''Asha'', ''2024-05-01 09:15:00''] ''DateTime''
       \<noteq> Some PyNone
   \<and> dict_row [''CustomerName'', ''DateTime''] [''Ravi'', ''2024-04-30 18:00:00''] ''DateTime''
       \<noteq> Some PyNone
   \<and> load_todays_transactions ''2024-05-01''
        (Some [[''CustomerName'', ''DateTime''],
               [''Asha'', ''2024-05-01 09:15:00''],
               [''Ravi'', ''2024-04-30 18:00:00'']])
      = Inr [dict_row [''CustomerName'', ''DateTime''] [''Asha'', ''2024-05-01 09:15:00'']]"
proof -
  let ?h = "[''CustomerName'', ''DateTime'']"
  let ?a = "[''Asha'', ''2024-05-01 09:15:00'']"
  let ?b = "[''Ravi'', ''2024-04-30 18:00:00'']"
  have a: "dict_row ?h ?a ''DateTime'' = Some (PyStr ''2024-05-01 09:15:00'')"
    by (simp add: dict_row_def)
  have b: "dict_row ?h ?b ''DateTime'' = Some (PyStr ''2024-04-30 18:00:00'')"
    by (simp add: dict_row_def)
  from a b have h: "\<forall>r \<in> set [?a, ?b]. dict_row ?h r ''DateTime'' \<noteq> Some PyNone"
    by simp
  have z: "show_daily_report ''2024-05-01'' None = Inr (Fin 0, Fin 0, 0, ''N/A'')"
    using todays_transactions_filter [of None "''2024-05-01''" "[]" "[]"] by simp
  have "load_todays_transactions ''2024-05-01'' (Some [?h, ?a, ?b])
        = Inr (filter (date_matches ''2024-05-01'') (map (dict_row ?h) (filter (\<lambda>r. r \<noteq> []) [?a, ?b])))"
    using todays_transactions_filter [of None "''2024-05-01''" "[?a, ?b]" ?h] h by blast
  also have "\<dots> = Inr [dict_row ?h ?a]"
    using a b by (simp add: date_matches_def startswith_def)
  finally show ?thesis
    using z a b by simp
qed

text \<open>
  C7, at a file that holds one record of the current day and one record of two fields
  only. The reader gives the short record the \<open>DateTime\<close> value \<open>None\<close>, on which
  \<open>startswith\<close> raises \<open>AttributeError\<close>: neither the loading nor the report
  returns, so the record of the day is not kept and the short record is not left out
  without an error. Without the short record the report counts the record of the day.
\<close>

theorem short_record_stops_report:
  "load_todays_transactions ''2024-05-01''
     (Some [HEADER,
            [''Asha'', ''Latte x2'', ''240.00'', ''12.00'', ''252.00'', ''Cash'', ''2024-05-01 09:15:00''],
            [''Ravi'', ''Samosa x4'']])
   = Inl AttributeError
   \<and> show_daily_report ''2024-05-01''
     (Some [HEADER,
            [''Asha'', ''Latte x2'', ''240.00'', ''12.00'', ''252.00'', ''Cash'', ''2024-05-01 09:15:00''],
            [''Ravi'', ''Samosa x4'']])
   = Inl AttributeError
   \<and> show_daily_report ''2024-05-01''
     (Some [HEADER,
            [''Asha'', ''Latte x2'', ''240.00'', ''12.00'', ''252.00'', ''Cash'', ''2024-05-01 09:15:00'']])
   = Inr (Fin 252, Fin 12, 1, ''Latte'')"
proof -
  have l: "load_todays_transactions ''2024-05-01''
     (Some [HEADER,
            [''Asha'', ''Latte x2'', ''240.00'', ''12.00'', ''252.00'', ''Cash'', ''2024-05-01 09:15:00''],
            [''Ravi'', ''Samosa x4'']])
   = Inl AttributeError"
    by (simp add: load_todays_transactions_def HEADER_def dict_row_def)
  then have r: "show_daily_report ''2024-05-01''
     (Some [HEADER,
            [''Asha'', ''Latte x2'', ''240.00'', ''12.00'', ''252.00'', ''Cash'', ''2024-05-01 09:15:00''],
            [''Ravi'', ''Samosa x4'']])
   = Inl AttributeError"
    by (simp add: show_daily_report_def)
  have "show_daily_report ''2024-05-01''
     (Some [HEADER,
            [''Asha'', ''Latte x2'', ''240.00'', ''12.00'', ''252.00'', ''Cash'', ''2024-05-01 09:15:00'']])
   = Inr (Fin 252, Fin 12, 1, ''Latte'')"
    by code_simp
  with l r show ?thesis by blast
qed

section \<open>Counters and the tally of a scan\<close>

lemma map_of_counter_set: "map_of (counter_set c k v) = (map_of c)(k \<mapsto> v)"
  by (induction c) (auto split: if_splits)

lemma distinct_counter_set:
  "distinct (map fst c) \<Longrightarrow> distinct (map fst (counter_set c k v))"
  by (simp add: keys_counter_set)

lemma counter_get_counter_add:
  "counter_get (counter_add c k q) k' = counter_get c k' + (if k' = k then q else 0)"
  by (simp add: counter_add_def counter_get_def map_of_counter_set)

lemma keys_counter_add:
  "map fst (counter_add c k q)
   = (if k \<in> set (map fst c) then map fst c else map fst c @ [k])"
  by (simp add: counter_add_def keys_counter_set)

lemma distinct_counter_add:
  "distinct (map fst c) \<Longrightarrow> distinct (map fst (counter_add c k q))"
  by (simp add: counter_add_def distinct_counter_set)

lemma set_seen_order [simp]: "set (seen_order xs) = set xs"
  by (induction xs) auto

lemma distinct_seen_order [simp]: "distinct (seen_order xs)"
  by (induction xs) auto

lemma seen_order_distinct: "distinct xs \<Longrightarrow> seen_order xs = xs"
proof (induction xs)
  case Nil
  then show ?case by simp
next
  case (Cons x xs)
  then have "filter (\<lambda>y. y \<noteq> x) xs = xs"
    by (auto intro: filter_True)
  with Cons show ?case by simp
qed

lemma keys_tally:
  "map fst (tally c evs)
   = map fst c @ filter (\<lambda>n. n \<notin> set (map fst c)) (seen_order (map fst evs))"
proof (induction evs arbitrary: c)
  case Nil
  then show ?case by simp
next
  case (Cons ev evs)
  obtain n q where ev: "ev = (n, q)" by (cases ev)
  show ?case
  proof (cases "n \<in> set (map fst c)")
    case True
    then have "filter (\<lambda>m. m \<notin> set (map fst c)) (filter (\<lambda>y. y \<noteq> n) (seen_order (map fst evs)))
               = filter (\<lambda>m. m \<notin> set (map fst c)) (seen_order (map fst evs))"
      by (auto intro: filter_cong)
    with True show ?thesis
      by (simp add: ev Cons.IH keys_counter_add)
  next
    case False
    have "filter (\<lambda>m. m \<notin> set (map fst c @ [n])) (seen_order (map fst evs))
          = filter (\<lambda>m. m \<notin> set (map fst c)) (filter (\<lambda>y. y \<noteq> n) (seen_order (map fst evs)))"
      by (auto intro: filter_cong)
    with False show ?thesis
      by (simp add: ev Cons.IH keys_counter_add)
  qed
qed

lemma item_total_Nil [simp]: "item_total [] k = 0"
  by (simp add: item_total_def)

lemma item_total_Cons [simp]:
  "item_total ((n, q) # evs) k = (if n = k then q else 0) + item_total evs k"
  by (simp add: item_total_def)

lemma item_total_append [simp]: "item_total (xs @ ys) k = item_total xs k + item_total ys k"
  by (simp add: item_total_def)

lemma counter_get_tally: "counter_get (tally c evs) k = counter_get c k + item_total evs k"
proof (induction evs arbitrary: c)
  case Nil
  then show ?case by simp
next
  case (Cons ev evs)
  obtain n q where ev: "ev = (n, q)" by (cases ev)
  show ?case
    by (simp add: ev Cons.IH counter_get_counter_add)
qed

lemma distinct_tally: "distinct (map fst c) \<Longrightarrow> distinct (map fst (tally c evs))"
proof (induction evs arbitrary: c)
  case Nil
  then show ?case by simp
next
  case (Cons ev evs)
  obtain n q where ev: "ev = (n, q)" by (cases ev)
  from Cons.prems show ?case
    by (simp add: ev Cons.IH distinct_counter_add)
qed

lemma counter_get_absent: "k \<notin> set (map fst c) \<Longrightarrow> counter_get c k = 0"
  by (simp add: counter_get_def map_of_eq_None_iff[THEN iffD2])

lemma counter_get_entry:
  "distinct (map fst c) \<Longrightarrow> (k, v) \<in> set c \<Longrightarrow> counter_get c k = v"
  by (simp add: counter_get_def)

lemma counter_eqI:
  "map fst a = map fst b \<Longrightarrow> distinct (map fst a)
   \<Longrightarrow> (\<And>k. counter_get a k = counter_get b k) \<Longrightarrow> a = b"
proof (induction a arbitrary: b)
  case Nil
  then show ?case by simp
next
  case (Cons x a)
  obtain k v where x: "x = (k, v)" by (cases x)
  from Cons.prems(1) obtain y b' where b: "b = y # b'" and y: "fst y = k"
    and keys: "map fst a = map fst b'"
    by (cases b) (auto simp: x)
  obtain v' where y': "y = (k, v')" using y by (cases y) auto
  from Cons.prems(2) have ka: "k \<notin> set (map fst a)" and da: "distinct (map fst a)"
    by (simp_all add: x)
  have "v = v'"
    using Cons.prems(3)[of k] by (simp add: x b y' counter_get_def)
  moreover have "a = b'"
  proof (rule Cons.IH[OF keys da])
    fix k'
    show "counter_get a k' = counter_get b' k'"
    proof (cases "k' = k")
      case True
      with ka keys show ?thesis
        by (simp add: counter_get_absent)
    next
      case False
      with Cons.prems(3)[of k'] show ?thesis
        by (simp add: x b y' counter_get_def)
    qed
  qed
  ultimately show ?case by (simp add: x b y')
qed

lemma counter_update_tally: "counter_update c d = tally c d"
proof -
  have "(\<lambda>a (k, v). counter_set a k (v + counter_get a k))
        = (\<lambda>a (n, q). counter_add a n q)"
    by (auto simp: fun_eq_iff counter_add_def add.commute)
  then show ?thesis
    by (simp add: counter_update_def tally_def)
qed

lemma item_total_distinct:
  "distinct (map fst d) \<Longrightarrow> item_total d k = counter_get d k"
proof (induction d)
  case Nil
  then show ?case by (simp add: counter_get_def)
next
  case (Cons x d)
  obtain n q where x: "x = (n, q)" by (cases x)
  from Cons.prems have nd: "n \<notin> set (map fst d)" and dd: "distinct (map fst d)"
    by (simp_all add: x)
  show ?case
  proof (cases "n = k")
    case True
    with nd have "counter_get d k = 0"
      by (simp add: counter_get_absent)
    with True Cons.IH[OF dd] show ?thesis
      by (simp add: x counter_get_def)
  next
    case False
    with Cons.IH[OF dd] show ?thesis
      by (simp add: x counter_get_def)
  qed
qed

lemma tally_tally:
  assumes "distinct (map fst c)"
  shows "tally c (tally [] evs) = tally c evs"
proof (rule counter_eqI)
  have d: "distinct (map fst (tally [] evs))"
    by (rule distinct_tally) simp
  have "map fst (tally [] evs) = seen_order (map fst evs)"
    by (simp add: keys_tally)
  then have "seen_order (map fst (tally [] evs)) = seen_order (map fst evs)"
    by (simp add: seen_order_distinct)
  then show "map fst (tally c (tally [] evs)) = map fst (tally c evs)"
    by (simp add: keys_tally[of c])
  show "distinct (map fst (tally c (tally [] evs)))"
    using assms by (rule distinct_tally)
  fix k
  have "counter_get (tally [] evs) k = item_total evs k"
    by (simp add: counter_get_tally counter_get_absent)
  with item_total_distinct[OF d, of k] have "item_total (tally [] evs) k = item_total evs k"
    by simp
  then show "counter_get (tally c (tally [] evs)) k = counter_get (tally c evs) k"
    by (simp add: counter_get_tally)
qed

lemma tally_append: "tally c (xs @ ys) = tally (tally c xs) ys"
  by (simp add: tally_def)

lemma summary_loop_counter:
  "summary_loop (ts, tg, c) rows = Inr (ts', tg', c') \<Longrightarrow> distinct (map fst c)
   \<Longrightarrow> c' = tally c (scan_events rows)"
proof (induction rows arbitrary: ts tg c)
  case Nil
  then show ?case by (simp add: scan_events_def)
next
  case (Cons row rows)
  obtain ts1 where ts1: "add_field ts row ''FinalTotal'' = Inr ts1"
    using add_field_returns by blast
  obtain tg1 where tg1: "add_field tg row ''GST'' = Inr tg1"
    using add_field_returns by blast
  let ?c1 = "tally c (row_events row)"
  have c1: "counter_update c (tally [] (row_events row)) = ?c1"
    using Cons.prems(2) by (simp add: counter_update_tally tally_tally)
  from Cons.prems(1) have "summary_loop (ts1, tg1, ?c1) rows = Inr (ts', tg', c')"
    by (simp add: ts1 tg1 row_items_decode c1)
  moreover have "distinct (map fst ?c1)"
    using Cons.prems(2) by (rule distinct_tally)
  ultimately have "c' = tally ?c1 (scan_events rows)"
    by (rule Cons.IH)
  then show ?case
    by (simp add: scan_events_def tally_append)
qed

lemma max_by_count_ge:
  "snd best \<le> snd (max_by_count best rest)
   \<and> (\<forall>e \<in> set rest. snd e \<le> snd (max_by_count best rest))"
proof (induction rest arbitrary: best)
  case Nil
  then show ?case by simp
next
  case (Cons kv rest)
  from Cons.IH[of "if snd best < snd kv then kv else best"] show ?case
    by (auto split: if_splits)
qed

lemma max_by_count_mem: "max_by_count best rest \<in> set (best # rest)"
proof (induction rest arbitrary: best)
  case Nil
  then show ?case by simp
next
  case (Cons kv rest)
  from Cons.IH[of "if snd best < snd kv then kv else best"] show ?case
    by (auto split: if_splits)
qed

lemma max_by_count_first:
  "\<forall>e \<in> set (takeWhile (\<lambda>e. e \<noteq> max_by_count best rest) (best # rest)).
     snd e < snd (max_by_count best rest)"
proof (induction rest arbitrary: best)
  case Nil
  then show ?case by simp
next
  case (Cons kv rest)
  define m where "m = max_by_count best (kv # rest)"
  have goal: "\<forall>e \<in> set (takeWhile (\<lambda>e. e \<noteq> m) (best # kv # rest)). snd e < snd m"
  proof (cases "m = best")
    case True
    then show ?thesis by simp
  next
    case nb: False
    then have tw: "takeWhile (\<lambda>e. e \<noteq> m) (best # kv # rest)
                   = best # takeWhile (\<lambda>e. e \<noteq> m) (kv # rest)"
      by simp
    show ?thesis
    proof (cases "snd best < snd kv")
      case True
      then have m: "m = max_by_count kv rest"
        by (simp add: m_def)
      have "snd kv \<le> snd m"
        unfolding m using max_by_count_ge[of kv rest] by simp
      with True have b: "snd best < snd m" by simp
      have "\<forall>e \<in> set (takeWhile (\<lambda>e. e \<noteq> m) (kv # rest)). snd e < snd m"
        unfolding m by (rule Cons.IH)
      with b show ?thesis
        unfolding tw by simp
    next
      case False
      then have m: "m = max_by_count best rest"
        by (simp add: m_def)
      have "\<forall>e \<in> set (takeWhile (\<lambda>e. e \<noteq> m) (best # rest)). snd e < snd m"
        unfolding m by (rule Cons.IH)
      with nb have b: "snd best < snd m"
        and r: "\<forall>e \<in> set (takeWhile (\<lambda>e. e \<noteq> m) rest). snd e < snd m"
        by simp_all
      from False b have k: "snd kv < snd m" by simp
      then have "kv \<noteq> m" by auto
      then have "takeWhile (\<lambda>e. e \<noteq> m) (kv # rest) = kv # takeWhile (\<lambda>e. e \<noteq> m) rest"
        by simp
      with b k r show ?thesis
        unfolding tw by simp
    qed
  qed
  then show ?case
    unfolding m_def .
qed

section \<open>The most sold item\<close>

lemma takeWhile_filter_commute:
  "Q t \<Longrightarrow> takeWhile (\<lambda>k. k \<noteq> t) (filter Q ys) = filter Q (takeWhile (\<lambda>k. k \<noteq> t) ys)"
  by (induction ys) auto

lemma takeWhile_seen_order:
  "takeWhile (\<lambda>k. k \<noteq> t) (seen_order xs) = seen_order (takeWhile (\<lambda>k. k \<noteq> t) xs)"
proof (induction xs)
  case Nil
  then show ?case by simp
next
  case (Cons x xs)
  show ?case
  proof (cases "x = t")
    case True
    then show ?thesis by simp
  next
    case False
    then have "takeWhile (\<lambda>k. k \<noteq> t) (filter (\<lambda>y. y \<noteq> x) (seen_order xs))
               = filter (\<lambda>y. y \<noteq> x) (takeWhile (\<lambda>k. k \<noteq> t) (seen_order xs))"
      by (intro takeWhile_filter_commute) simp
    with False Cons.IH show ?thesis by simp
  qed
qed

lemma most_sold_first_max:
  assumes d: "distinct (map fst c)" and ne: "c \<noteq> []"
  shows "\<exists>top. most_sold c = Inr top
           \<and> top \<in> set (map fst c)
           \<and> (\<forall>k \<in> set (map fst c). counter_get c k \<le> counter_get c top)
           \<and> (\<forall>k \<in> set (takeWhile (\<lambda>k. k \<noteq> top) (map fst c)).
                 counter_get c k < counter_get c top)"
proof -
  from ne obtain kv rest where c: "c = kv # rest"
    by (cases c) auto
  define m where "m = max_by_count kv rest"
  have ms: "most_sold c = Inr (fst m)"
    by (simp add: most_sold_def most_common1_def c m_def)
  have mem: "m \<in> set c"
    unfolding m_def c by (rule max_by_count_mem)
  have val: "counter_get c (fst e) = snd e" if "e \<in> set c" for e
    using counter_get_entry[OF d, of "fst e" "snd e"] that by simp
  have ge: "\<forall>e \<in> set c. snd e \<le> snd m"
    unfolding m_def c using max_by_count_ge[of kv rest] by simp
  have first: "\<forall>e \<in> set (takeWhile (\<lambda>e. e \<noteq> m) c). snd e < snd m"
    unfolding m_def c by (rule max_by_count_first)
  have key: "fst e \<noteq> fst m \<longleftrightarrow> e \<noteq> m" if "e \<in> set c" for e
    using eq_key_imp_eq_value[OF d, of "fst m" "snd e" "snd m"] that mem
    by (cases e; cases m) auto
  have tw: "takeWhile (\<lambda>k. k \<noteq> fst m) (map fst c) = map fst (takeWhile (\<lambda>e. e \<noteq> m) c)"
  proof -
    have "takeWhile (\<lambda>e. fst e \<noteq> fst m) c = takeWhile (\<lambda>e. e \<noteq> m) c"
      by (rule takeWhile_cong) (simp_all add: key)
    then show ?thesis
      by (simp add: takeWhile_map comp_def)
  qed
  have a: "fst m \<in> set (map fst c)"
    using mem by simp
  have b: "\<forall>k \<in> set (map fst c). counter_get c k \<le> counter_get c (fst m)"
    using ge val mem by auto
  have "\<forall>k \<in> set (takeWhile (\<lambda>k. k \<noteq> fst m) (map fst c)).
          counter_get c k < counter_get c (fst m)"
  proof
    fix k
    assume "k \<in> set (takeWhile (\<lambda>k. k \<noteq> fst m) (map fst c))"
    then obtain e where e: "e \<in> set (takeWhile (\<lambda>e. e \<noteq> m) c)" and k: "k = fst e"
      unfolding tw by auto
    from e have "e \<in> set c"
      by (auto dest: set_takeWhileD)
    with e first val mem k show "counter_get c k < counter_get c (fst m)"
      by auto
  qed
  with ms a b show ?thesis by blast
qed

lemma most_sold_Nil: "most_sold [] = Inr ''N/A''"
  by (simp add: most_sold_def)

lemma tie_example:
  "compute_daily_summary
     [[''OrderedItems'' \<mapsto> PyStr ''Vada pav x1; Latte x3''],
      [''OrderedItems'' \<mapsto> PyStr ''Vada pav x2'']]
   = Inr (Fin 0, Fin 0, 2, ''Vada pav'')"
  by code_simp

text \<open>
  C3. When the scan of the rows tallies no item, the most sold item is \<open>N/A\<close>.
  Otherwise it is a tallied name whose quantity, summed over all rows, is the highest,
  and every name that the scan meets before the first occurrence of that name has a
  strictly smaller sum: among the names with the highest sum, the one met first wins.
  With \<open>Vada pav x1; Latte x3\<close> in one row and \<open>Vada pav x2\<close> in the next, both
  sums are 3 and the most sold item is Vada pav.
\<close>

theorem top_item_first_highest:
  "(compute_daily_summary rows = Inr (total_sales, total_gst, n, top_item) \<longrightarrow>
      (map fst (scan_events rows) = [] \<longrightarrow> top_item = ''N/A'')
      \<and> (map fst (scan_events rows) \<noteq> [] \<longrightarrow>
           top_item \<in> set (map fst (scan_events rows))
           \<and> (\<forall>k \<in> set (map fst (scan_events rows)).
                 item_total (scan_events rows) k \<le> item_total (scan_events rows) top_item)
           \<and> (\<forall>k \<in> set (takeWhile (\<lambda>k. k \<noteq> top_item) (map fst (scan_events rows))).
                 item_total (scan_events rows) k < item_total (scan_events rows) top_item)))
   \<and> compute_daily_summary
        [[''OrderedItems'' \<mapsto> PyStr ''Vada pav x1; Latte x3''],
         [''OrderedItems'' \<mapsto> PyStr ''Vada pav x2'']]
      = Inr (Fin 0, Fin 0, 2, ''Vada pav'')"
proof (intro conjI impI)
  let ?evs = "scan_events rows"
  let ?names = "map fst ?evs"
  assume r: "compute_daily_summary rows = Inr (total_sales, total_gst, n, top_item)"
  have top: "\<exists>c. c = tally [] ?evs \<and> most_sold c = Inr top_item"
  proof (cases "rows = []")
    case True
    with r show ?thesis
      by (simp add: compute_daily_summary_def scan_events_def most_sold_Nil)
  next
    case False
    obtain ts tg c where l: "summary_loop (Fin 0, Fin 0, []) rows = Inr (ts, tg, c)"
      using summary_loop_returns[of "(Fin 0, Fin 0, [])" rows] by (metis prod_cases3)
    then have "c = tally [] ?evs"
      by (rule summary_loop_counter) simp
    moreover from r False l have "most_sold c = Inr top_item"
      by (auto simp: compute_daily_summary_def split: sum.splits)
    ultimately show ?thesis by blast
  qed
  then obtain c where c: "c = tally [] ?evs" and ms: "most_sold c = Inr top_item"
    by blast
  have keys: "map fst c = seen_order ?names"
    by (simp add: c keys_tally)
  have d: "distinct (map fst c)"
    by (simp add: keys)
  have cnt: "counter_get c k = item_total ?evs k" for k
    by (simp add: c counter_get_tally counter_get_absent)
  show "top_item = ''N/A''" if "?names = []"
  proof -
    from that keys have "c = []" by simp
    with ms show ?thesis by (simp add: most_sold_Nil)
  qed
  assume ne: "?names \<noteq> []"
  have cne: "c \<noteq> []"
  proof
    assume "c = []"
    with keys have "set (seen_order ?names) = {}" by simp
    with ne show False by simp
  qed
  from most_sold_first_max[OF d cne] ms
  have a: "top_item \<in> set (map fst c)"
    and b: "\<forall>k \<in> set (map fst c). counter_get c k \<le> counter_get c top_item"
    and f: "\<forall>k \<in> set (takeWhile (\<lambda>k. k \<noteq> top_item) (map fst c)).
              counter_get c k < counter_get c top_item"
    by auto
  from a show "top_item \<in> set ?names"
    by (simp add: keys)
  from b show "\<forall>k \<in> set ?names. item_total ?evs k \<le> item_total ?evs top_item"
    by (simp add: keys cnt)
  from f show "\<forall>k \<in> set (takeWhile (\<lambda>k. k \<noteq> top_item) ?names).
                 item_total ?evs k < item_total ?evs top_item"
    by (simp add: keys cnt takeWhile_seen_order)
next
  show "compute_daily_summary
        [[''OrderedItems'' \<mapsto> PyStr ''Vada pav x1; Latte x3''],
         [''OrderedItems'' \<mapsto> PyStr ''Vada pav x2'']]
      = Inr (Fin 0, Fin 0, 2, ''Vada pav'')"
    by (rule tie_example)
qed

theorem top_item_first_highest_witness:
  "compute_daily_summary
     [[''OrderedItems'' \<mapsto> PyStr ''Vada pav x1; Latte x3''],
      [''OrderedItems'' \<mapsto> PyStr ''Vada pav x2'']]
   = Inr (Fin 0, Fin 0, 2, ''Vada pav'')
   \<and> scan_events
       [[''OrderedItems'' \<mapsto> PyStr ''Vada pav x1; Latte x3''],
        [''OrderedItems'' \<mapsto> PyStr ''Vada pav x2'']]
     = [(''Vada pav'', 1), (''Latte'', 3), (''Vada pav'', 2)]
   \<and> item_total [(''Vada pav'', 1), (''Latte'', 3), (''Vada pav'', 2)] ''Latte''
       \<le> item_total [(''Vada pav'', 1), (''Latte'', 3), (''Vada pav'', 2)] ''Vada pav''"
proof -
  let ?rows = "[[''OrderedItems'' \<mapsto> PyStr ''Vada pav x1; Latte x3''],
                [''OrderedItems'' \<mapsto> PyStr ''Vada pav x2'']]"
  have ev: "scan_events ?rows = [(''Vada pav'', 1), (''Latte'', 3), (''Vada pav'', 2)]"
    by code_simp
  have r: "compute_daily_summary ?rows = Inr (Fin 0, Fin 0, 2, ''Vada pav'')"
    by (rule tie_example)
  from top_item_first_highest [of ?rows "Fin 0" "Fin 0" 2 "''Vada pav''", THEN conjunct1] r
  have "\<forall>k \<in> set (map fst (scan_events ?rows)).
          item_total (scan_events ?rows) k \<le> item_total (scan_events ?rows) ''Vada pav''"
    unfolding ev by simp
  then have "item_total (scan_events ?rows) ''Latte'' \<le> item_total (scan_events ?rows) ''Vada pav''"
    unfolding ev by simp
  with ev r show ?thesis by simp
qed

section \<open>Encoding and decoding the ordered items\<close>

lemma is_space_blank [simp]: "is_space CHR '' ''"
  by (simp add: is_space_def)

lemma digit_char:
  assumes "k < 10"
  shows "is_digit (char_of (48 + k)) \<and> digit_val (char_of (48 + k)) = int k"
proof -
  from assms have "(48 + k) mod 256 = 48 + k" by simp
  then have "of_char (char_of (48 + k)) = 48 + k"
    by (simp add: of_char_of)
  with assms show ?thesis
    by (simp add: is_digit_def digit_val_def)
qed

lemma is_digit_not_space: "is_digit c \<Longrightarrow> \<not> is_space c"
  by (auto simp: is_digit_def is_space_def Let_def)

lemma is_digit_plain:
  "is_digit c \<Longrightarrow> c \<noteq> CHR ''_'' \<and> c \<noteq> CHR ''-'' \<and> c \<noteq> CHR ''+'' \<and> c \<noteq> CHR '';'' \<and> c \<noteq> CHR '' ''"
  by (auto simp: is_digit_def)

lemma nat_digits_digits: "c \<in> set (nat_digits n) \<Longrightarrow> is_digit c"
proof (induction n arbitrary: c rule: nat_digits.induct)
  case (1 n)
  show ?case
  proof (cases "n < 10")
    case True
    with "1.prems" show ?thesis
      by (simp add: nat_digits.simps[of n] digit_char)
  next
    case False
    with "1.prems" "1.IH" show ?thesis
      by (auto simp: nat_digits.simps[of n] digit_char)
  qed
qed

lemma nat_digits_nonempty: "nat_digits n \<noteq> []"
  by (simp add: nat_digits.simps[of n])

lemma digits_ok_all: "s \<noteq> [] \<Longrightarrow> \<forall>c \<in> set s. is_digit c \<Longrightarrow> digits_ok s"
proof (induction s rule: digits_ok.induct)
  case 1
  then show ?case by simp
next
  case (2 c)
  then show ?case by simp
next
  case (3 c d cs)
  from "3.prems" have "d \<noteq> CHR ''_''"
    using is_digit_plain[of d] by simp
  with 3 show ?case by simp
qed

lemma digits_value_snoc:
  "is_digit c \<Longrightarrow> digits_value (s @ [c]) = 10 * digits_value s + digit_val c"
  by (simp add: digits_value_def)

lemma digits_value_nat_digits: "digits_value (nat_digits n) = int n"
proof (induction n rule: nat_digits.induct)
  case (1 n)
  show ?case
  proof (cases "n < 10")
    case True
    then show ?thesis
      by (simp add: nat_digits.simps[of n] digits_value_def digit_char)
  next
    case False
    have "n mod 10 < 10" by simp
    note dc = digit_char[OF this]
    have "int (10 * (n div 10) + n mod 10) = int n" by simp
    then have e: "10 * int (n div 10) + int (n mod 10) = int n"
      by (simp only: of_nat_add of_nat_mult of_nat_numeral)
    from dc False "1.IH" have "digits_value (nat_digits n) = 10 * int (n div 10) + int (n mod 10)"
      by (simp add: nat_digits.simps[of n] digits_value_snoc)
    with e show ?thesis by simp
  qed
qed

lemma int_text_chars: "c \<in> set (int_text i) \<Longrightarrow> is_digit c \<or> c = CHR ''-''"
  by (auto simp: int_text_def split: if_splits dest: nat_digits_digits)

lemma int_text_nonempty: "int_text i \<noteq> []"
  by (simp add: int_text_def nat_digits_nonempty)

lemma minus_not_space: "\<not> is_space CHR ''-''"
  by (simp add: is_space_def)

lemma int_text_no_space: "c \<in> set (int_text i) \<Longrightarrow> \<not> is_space c"
  using int_text_chars[of c i] is_digit_not_space[of c] minus_not_space by auto

lemma int_text_no_blank: "CHR '' '' \<notin> set (int_text i)"
  using int_text_no_space[of "CHR '' ''" i] by auto

lemma int_text_no_semicolon: "CHR '';'' \<notin> set (int_text i)"
  using int_text_chars[of "CHR '';''" i] is_digit_plain[of "CHR '';''"] by auto

lemma strip_int_text: "strip (int_text i) = int_text i"
proof (rule strip_id, rule disjI2)
  have "hd (int_text i) \<in> set (int_text i)" "last (int_text i) \<in> set (int_text i)"
    using int_text_nonempty by simp_all
  then show "\<not> is_space (hd (int_text i)) \<and> \<not> is_space (last (int_text i))"
    using int_text_no_space by blast
qed

lemma filter_nat_digits: "filter is_digit (nat_digits n) = nat_digits n"
  by (rule filter_True) (auto dest: nat_digits_digits)

lemma py_int_int_text:
  assumes "\<bar>i\<bar> < 10 ^ nat MAX_STR_DIGITS"
  shows "py_int (int_text i) = Inr i"
proof (cases "i < 0")
  case True
  let ?d = "nat_digits (nat (- i))"
  have s: "strip (CHR ''-'' # ?d) = CHR ''-'' # ?d"
    using strip_int_text[of i] True by (simp add: int_text_def)
  have ok: "digits_ok ?d"
    by (rule digits_ok_all) (auto simp: nat_digits_nonempty dest: nat_digits_digits)
  have "int (length ?d) \<le> MAX_STR_DIGITS"
    using abs_digits_length[OF assms] True by simp
  with True ok show ?thesis
    by (simp add: py_int_def int_text_def s digits_value_nat_digits filter_nat_digits)
next
  case False
  let ?d = "nat_digits (nat i)"
  have s: "strip ?d = ?d"
    using strip_int_text[of i] False by (simp add: int_text_def)
  have ok: "digits_ok ?d"
    by (rule digits_ok_all) (auto simp: nat_digits_nonempty dest: nat_digits_digits)
  have "hd ?d \<in> set ?d"
    using nat_digits_nonempty by simp
  then have "is_digit (hd ?d)"
    by (rule nat_digits_digits)
  then have hd: "hd ?d \<noteq> CHR ''-''" "hd ?d \<noteq> CHR ''+''"
    using is_digit_plain by blast+
  have "int (length ?d) \<le> MAX_STR_DIGITS"
    using abs_digits_length[OF assms] False by simp
  with False ok hd show ?thesis
    by (simp add: py_int_def int_text_def s digits_value_nat_digits filter_nat_digits)
qed

lemma rfind_no_blank: "CHR '' '' \<notin> set d \<Longrightarrow> rfind '' x'' d = None"
  by (induction d) (auto simp: startswith_def)

lemma rfind_suffix:
  assumes "CHR '' '' \<notin> set d"
  shows "rfind '' x'' (n @ CHR '' '' # CHR ''x'' # d) = Some (length n)"
proof (induction n)
  case Nil
  have "rfind '' x'' (CHR ''x'' # d) = None"
    using assms by (intro rfind_no_blank) simp
  then show ?case
    by (simp add: startswith_def)
next
  case (Cons c n)
  then show ?case by simp
qed

lemma decode_segment_blank: "decode_segment (CHR '' '' # s) = decode_segment s"
  by (simp add: decode_segment_def strip_def lstrip_Cons)

lemma decode_segment_item:
  assumes "codec_name n" and lim: "\<bar>q\<bar> < 10 ^ nat MAX_STR_DIGITS"
  shows "decode_segment (n @ CHR '' '' # CHR ''x'' # int_text q) = Some (n, q)"
proof -
  let ?d = "int_text q"
  let ?s = "n @ CHR '' '' # CHR ''x'' # ?d"
  from assms(1) have n: "n \<noteq> []" "\<not> is_space (hd n)" "\<not> is_space (last n)"
    by (simp_all add: codec_name_def)
  have "last ?s = last ?d"
    using int_text_nonempty[of q] by simp
  moreover have "last ?d \<in> set ?d"
    using int_text_nonempty by simp
  ultimately have "\<not> is_space (last ?s)"
    using int_text_no_space by metis
  moreover have "hd ?s = hd n"
    using n by simp
  ultimately have s: "strip ?s = ?s"
    using n by (intro strip_id) simp
  have r: "rfind '' x'' ?s = Some (length n)"
    by (rule rfind_suffix) (rule int_text_no_blank)
  have sn: "strip n = n"
    using n by (intro strip_id) simp
  have t: "take (length n) ?s = n" and dr: "drop (length n + 2) ?s = ?d"
    by simp_all
  show ?thesis
    unfolding decode_segment_def Let_def s r
    using n by (simp only: option.case t dr sn py_int_int_text[OF lim] sum.case) simp
qed

lemma split_char_plain: "sep \<notin> set a \<Longrightarrow> split_char sep a = [a]"
  by (induction a) auto

lemma split_char_nonempty: "split_char sep s \<noteq> []"
  by (induction s) (auto split: list.splits)

lemma split_char_append:
  "sep \<notin> set a \<Longrightarrow> split_char sep (a @ sep # b) = a # split_char sep b"
proof (induction a)
  case Nil
  then show ?case
    using split_char_nonempty[of sep b] by (cases "split_char sep b") auto
next
  case (Cons c a)
  then show ?case by auto
qed

lemma split_join:
  assumes "\<forall>p \<in> set (q # ps). CHR '';'' \<notin> set p" and "CHR '';'' \<notin> set pre"
  shows "split_char CHR '';'' (pre @ join ''; '' (q # ps))
         = (pre @ q) # map (\<lambda>p. CHR '' '' # p) ps"
  using assms
proof (induction ps arbitrary: pre q)
  case Nil
  then show ?case by (simp add: split_char_plain)
next
  case (Cons p ps)
  define rest where "rest = [CHR '' ''] @ join ''; '' (p # ps)"
  have j: "pre @ join ''; '' (q # p # ps) = (pre @ q) @ CHR '';'' # rest"
    by (simp add: rest_def)
  have "CHR '';'' \<notin> set (pre @ q)"
    using Cons.prems by simp
  then have "split_char CHR '';'' ((pre @ q) @ CHR '';'' # rest)
        = (pre @ q) # split_char CHR '';'' rest"
    by (rule split_char_append)
  moreover have "split_char CHR '';'' rest = ([CHR '' ''] @ p) # map (\<lambda>p. CHR '' '' # p) ps"
    unfolding rest_def using Cons.prems by (intro Cons.IH) auto
  ultimately show ?case
    unfolding j by simp
qed

lemma decode_events_format:
  assumes "\<forall>item \<in> set items.
             codec_name (name item) \<and> \<bar>quantity item\<bar> < 10 ^ nat MAX_STR_DIGITS"
  shows "decode_events (format_text items)
         = map (\<lambda>item. (name item, quantity item)) items"
proof (cases items)
  case Nil
  then show ?thesis by (simp add: format_text_def)
next
  case (Cons i rest)
  let ?seg = "\<lambda>item. name item @ CHR '' '' # CHR ''x'' # int_text (quantity item)"
  have nosemi: "\<forall>p \<in> set (map ?seg items). CHR '';'' \<notin> set p"
    using assms int_text_no_semicolon by (auto simp: codec_name_def)
  have "split_char CHR '';'' ([] @ join ''; '' (?seg i # map ?seg rest))
        = ([] @ ?seg i) # map (\<lambda>p. CHR '' '' # p) (map ?seg rest)"
    using nosemi by (intro split_join) (simp_all add: Cons)
  then have sp: "split_char CHR '';'' (format_text (i # rest))
        = ?seg i # map (\<lambda>p. CHR '' '' # p) (map ?seg rest)"
    by (simp add: format_text_def)
  have seg: "decode_segment (?seg item) = Some (name item, quantity item)"
    if "item \<in> set items" for item
    using assms that by (intro decode_segment_item) simp_all
  have tl: "List.map_filter decode_segment (map (\<lambda>p. CHR '' '' # p) (map ?seg xs))
        = map (\<lambda>item. (name item, quantity item)) xs" if "set xs \<subseteq> set items" for xs
    using that
  proof (induction xs)
    case Nil
    then show ?case by (simp add: map_filter_simps)
  next
    case (Cons x xs)
    then show ?case
      by (simp add: map_filter_simps decode_segment_blank seg)
  qed
  have "set rest \<subseteq> set items"
    by (auto simp: Cons)
  then have r: "List.map_filter decode_segment (map (\<lambda>p. CHR '' '' # p) (map ?seg rest))
        = map (\<lambda>item. (name item, quantity item)) rest"
    by (rule tl)
  have h: "decode_segment (?seg i) = Some (name i, quantity i)"
    by (rule seg) (simp add: Cons)
  have e: "List.map_filter decode_segment (?seg i # map (\<lambda>p. CHR '' '' # p) (map ?seg rest))
        = map (\<lambda>item. (name item, quantity item)) (i # rest)"
    unfolding map_filter_simps h r by simp
  show ?thesis
    unfolding Cons decode_events_def sp by (rule e)
qed

lemma item_total_items:
  "item_total (map (\<lambda>item. (name item, quantity item)) items) n = quantity_sum items n"
  by (induction items) (auto simp: quantity_sum_def)

lemma map_of_counter:
  "distinct (map fst c) \<Longrightarrow>
   map_of c k = (if k \<in> set (map fst c) then Some (counter_get c k) else None)"
  by (auto simp: counter_get_def map_of_eq_None_iff split: option.splits)

lemma roundtrip_example:
  "format_order_items
     [\<lparr>name = ''Latte'', quantity = 2, unit_price = Fin 120\<rparr>,
      \<lparr>name = ''Vada pav'', quantity = 1, unit_price = Fin 30\<rparr>]
   = Inr ''Latte x2; Vada pav x1''
   \<and> parse_ordered_items ''Latte x2; Vada pav x1'' = Inr [(''Latte'', 2), (''Vada pav'', 1)]"
  by code_simp

text \<open>
  C2, as the code has it. For order items whose names are not empty, carry no whitespace
  at either end and hold no semicolon, and whose quantities have at most 4300 digits (the
  interpreter's limit for the text of an integer), \<open>format_order_items\<close> returns one
  \<open>"<name> x<quantity>"\<close> per item joined with \<open>"; "\<close>, and decoding that text
  gives the mapping from each name to the sum of its quantities, the keys in the order of
  their first occurrence; two Latte and one Vada pav come back as Latte 2, Vada pav 1.
\<close>

theorem format_parse_roundtrip:
  "((\<forall>item \<in> set items.
        codec_name (name item) \<and> \<bar>quantity item\<bar> < 10 ^ nat MAX_STR_DIGITS) \<longrightarrow>
      format_order_items items = Inr (format_text items)
      \<and> (\<exists>c. parse_ordered_items (format_text items) = Inr c
             \<and> map fst c = seen_order (map name items)
             \<and> (\<forall>n. map_of c n
                   = (if n \<in> name ` set items then Some (quantity_sum items n) else None))))
   \<and> format_order_items
        [\<lparr>name = ''Latte'', quantity = 2, unit_price = Fin 120\<rparr>,
         \<lparr>name = ''Vada pav'', quantity = 1, unit_price = Fin 30\<rparr>]
      = Inr ''Latte x2; Vada pav x1''
   \<and> parse_ordered_items ''Latte x2; Vada pav x1'' = Inr [(''Latte'', 2), (''Vada pav'', 1)]"
proof -
  have "format_order_items items = Inr (format_text items)
      \<and> (\<exists>c. parse_ordered_items (format_text items) = Inr c
             \<and> map fst c = seen_order (map name items)
             \<and> (\<forall>n. map_of c n
                   = (if n \<in> name ` set items then Some (quantity_sum items n) else None)))"
    if a: "\<forall>item \<in> set items.
             codec_name (name item) \<and> \<bar>quantity item\<bar> < 10 ^ nat MAX_STR_DIGITS"
  proof -
    let ?evs = "map (\<lambda>item. (name item, quantity item)) items"
    let ?c = "tally [] ?evs"
    have f: "format_order_items items = Inr (format_text items)"
      using a by (intro format_order_items_text) simp
    have p: "parse_ordered_items (format_text items) = Inr ?c"
      by (simp add: parse_ordered_items_decode decode_events_format[OF a])
    have k: "map fst ?c = seen_order (map name items)"
      by (simp add: keys_tally comp_def)
    have d: "distinct (map fst ?c)"
      by (simp add: k)
    have "map_of ?c n = (if n \<in> name ` set items then Some (quantity_sum items n) else None)"
      for n
      using map_of_counter[OF d, of n]
      by (simp add: k counter_get_tally counter_get_absent item_total_items)
    with f p k show ?thesis
      by blast
  qed
  with roundtrip_example show ?thesis
    by blast
qed

theorem format_parse_roundtrip_witness:
  "codec_name ''Latte'' \<and> codec_name ''Vada pav''
   \<and> \<bar>2 :: int\<bar> < 10 ^ nat MAX_STR_DIGITS \<and> \<bar>1 :: int\<bar> < 10 ^ nat MAX_STR_DIGITS
   \<and> (\<exists>s c. format_order_items
                [\<lparr>name = ''Latte'', quantity = 2, unit_price = Fin 120\<rparr>,
                 \<lparr>name = ''Vada pav'', quantity = 1, unit_price = Fin 30\<rparr>,
                 \<lparr>name = ''Latte'', quantity = 1, unit_price = Fin 120\<rparr>] = Inr s
              \<and> parse_ordered_items s = Inr c
              \<and> map_of c ''Latte'' = Some 3 \<and> map_of c ''Vada pav'' = Some 1
              \<and> map_of c ''Samosa'' = None)"
proof -
  let ?items = "[\<lparr>name = ''Latte'', quantity = 2, unit_price = Fin 120\<rparr>,
                 \<lparr>name = ''Vada pav'', quantity = 1, unit_price = Fin 30\<rparr>,
                 \<lparr>name = ''Latte'', quantity = 1, unit_price = Fin 120\<rparr>]"
  have cn: "codec_name ''Latte'' \<and> codec_name ''Vada pav''"
    by (simp add: codec_name_def is_space_def)
  have q: "\<bar>2 :: int\<bar> < 10 ^ nat MAX_STR_DIGITS \<and> \<bar>1 :: int\<bar> < 10 ^ nat MAX_STR_DIGITS"
    by (intro conjI small_in_limit) simp_all
  from cn q have "\<forall>item \<in> set ?items.
      codec_name (name item) \<and> \<bar>quantity item\<bar> < 10 ^ nat MAX_STR_DIGITS"
    by simp
  with format_parse_roundtrip [of ?items, THEN conjunct1]
  obtain c where f: "format_order_items ?items = Inr (format_text ?items)"
    and p: "parse_ordered_items (format_text ?items) = Inr c"
    and m: "\<And>n. map_of c n
              = (if n \<in> name ` set ?items then Some (quantity_sum ?items n) else None)"
    by blast
  have "map_of c ''Latte'' = Some 3" "map_of c ''Vada pav'' = Some 1" "map_of c ''Samosa'' = None"
    by (simp_all add: m quantity_sum_def)
  with cn q f p show ?thesis by blast
qed

text \<open>
  A name with a semicolon does not come back: the item \<open>Tea; Milk\<close> with quantity 1
  is encoded as \<open>Tea; Milk x1\<close> and decoded as Tea 1 and Milk 1.
\<close>

theorem format_parse_roundtrip_counterexample:
  "format_order_items [\<lparr>name = ''Tea; Milk'', quantity = 1, unit_price = Fin 60\<rparr>]
   = Inr ''Tea; Milk x1''
   \<and> parse_ordered_items ''Tea; Milk x1'' = Inr [(''Tea'', 1), (''Milk'', 1)]
   \<and> map_of [(''Tea'', 1 :: int), (''Milk'', 1)] ''Tea; Milk'' \<noteq> Some 1"
  by code_simp

text \<open>
  A quantity of 4301 digits or more is not encoded at all: \<open>format_order_items\<close>
  raises \<open>ValueError\<close>.
\<close>

lemma format_order_items_beyond_limit:
  "10 ^ nat MAX_STR_DIGITS \<le> \<bar>quantity item\<bar> \<Longrightarrow>
   format_order_items [item] = Inl ValueError"
  by (simp add: format_order_items_def py_str_int_beyond_limit)


end
